theory Spec2Isabelle
  imports Complex_Main
begin

section \<open>JavaScript values used by civil-date\<close>

subsection \<open>Numbers\<close>

text \<open>
  A JavaScript \<^verbatim>\<open>number\<close> is an IEEE double. The finite doubles are modelled by the
  real numbers they denote; \<open>NaN\<close> and the two infinities are values of their own. The
  comparisons and \<^verbatim>\<open>Math.floor\<close> are exact on doubles, so they are exact here. The product
  \<^verbatim>\<open>a * b\<close> is the exact product rounded to the nearest double (\<open>to_double\<close> below). The
  sums, differences and quotients that the code forms have integer operands and an integer
  result below \<open>2^53\<close>, which a double holds exactly; they are not rounded here.
\<close>

datatype number = NaN | NegInf | PosInf | Fin real

text \<open>\<^verbatim>\<open>a < b\<close>: every comparison with \<open>NaN\<close> is false.\<close>

fun num_less :: "number \<Rightarrow> number \<Rightarrow> bool" where
  "num_less NaN _ = False"
| "num_less _ NaN = False"
| "num_less (Fin a) (Fin b) = (a < b)"
| "num_less NegInf NegInf = False"
| "num_less NegInf _ = True"
| "num_less _ NegInf = False"
| "num_less PosInf _ = False"
| "num_less _ PosInf = True"

text \<open>\<^verbatim>\<open>a > b\<close> is \<^verbatim>\<open>b < a\<close>.\<close>

definition num_greater :: "number \<Rightarrow> number \<Rightarrow> bool" where
  "num_greater a b = num_less b a"

fun Math_floor :: "number \<Rightarrow> number" where
  "Math_floor (Fin q) = Fin (of_int \<lfloor>q\<rfloor>)"
| "Math_floor x = x"

fun isNaN :: "number \<Rightarrow> bool" where
  "isNaN NaN = True"
| "isNaN _ = False"

text \<open>
  Rounding a real number to the nearest double, ties to the even significand (IEEE 754
  binary64, the rounding of every arithmetic operation of JavaScript). \<open>binary_exponent a\<close>
  is the \<open>e\<close> with \<open>2^e \<le> a < 2^(e+1)\<close> for a positive \<open>a\<close>, computed from the number of
  bits of the integer part of \<open>a\<close>, or of \<open>1 / a\<close> below 1 (lemma \<open>binary_exponent_bounds\<close>).
  A double has 53 significant bits and no exponent below \<open>-1022\<close>, so the doubles next to
  \<open>a\<close> are the multiples of \<open>2^(e - 52)\<close>, with \<open>e\<close> at least \<open>-1022\<close>; a result of \<open>2^1024\<close> or
  more is an infinity.
\<close>

function bit_length :: "int \<Rightarrow> nat" where
  "bit_length n = (if n \<le> 0 then 0 else Suc (bit_length (n div 2)))"
  by pat_completeness auto
termination
  by (relation "measure nat") auto

declare bit_length.simps [simp del]

definition pow2 :: "int \<Rightarrow> real" where
  "pow2 k = (if 0 \<le> k then 2 ^ nat k else 1 / 2 ^ nat (- k))"

definition binary_exponent :: "real \<Rightarrow> int" where
  "binary_exponent a =
     (if 1 \<le> a then int (bit_length \<lfloor>a\<rfloor>) - 1 else - int (bit_length (\<lceil>1 / a\<rceil> - 1)))"

definition round_half_even :: "real \<Rightarrow> int" where
  "round_half_even y =
     (let f = \<lfloor>y\<rfloor>; r = y - of_int f
      in if r < 1 / 2 then f else if 1 / 2 < r then f + 1 else if even f then f else f + 1)"

definition to_double :: "real \<Rightarrow> number" where
  "to_double x =
     (if x = 0 then Fin 0
      else
        let a = \<bar>x\<bar>;
            e = max (binary_exponent a) (- 1022);
            u = pow2 (e - 52);
            r = of_int (round_half_even (a / u)) * u
        in if pow2 1024 \<le> r then (if 0 < x then PosInf else NegInf)
           else Fin (if 0 < x then r else - r))"

text \<open>\<^verbatim>\<open>a * b\<close> and \<^verbatim>\<open>a / b\<close> (signed zeros are not distinguished).\<close>

fun num_sign_flip :: "number \<Rightarrow> number" where
  "num_sign_flip PosInf = NegInf"
| "num_sign_flip NegInf = PosInf"
| "num_sign_flip x = x"

fun num_times :: "number \<Rightarrow> number \<Rightarrow> number" where
  "num_times NaN _ = NaN"
| "num_times _ NaN = NaN"
| "num_times (Fin a) (Fin b) = to_double (a * b)"
| "num_times (Fin a) i = (if a = 0 then NaN else if 0 < a then i else num_sign_flip i)"
| "num_times i (Fin b) = (if b = 0 then NaN else if 0 < b then i else num_sign_flip i)"
| "num_times PosInf i = i"
| "num_times NegInf i = num_sign_flip i"

fun num_divide :: "number \<Rightarrow> number \<Rightarrow> number" where
  "num_divide NaN _ = NaN"
| "num_divide _ NaN = NaN"
| "num_divide (Fin a) (Fin b) =
     (if b = 0 then (if a = 0 then NaN else if 0 < a then PosInf else NegInf)
      else Fin (a / b))"
| "num_divide (Fin a) _ = Fin 0"
| "num_divide i (Fin b) = (if 0 \<le> b then i else num_sign_flip i)"
| "num_divide _ _ = NaN"

text \<open>\<^verbatim>\<open>a + b\<close>, \<^verbatim>\<open>a - b\<close> and \<^verbatim>\<open>a === b\<close> on numbers.\<close>

fun num_plus :: "number \<Rightarrow> number \<Rightarrow> number" where
  "num_plus NaN _ = NaN"
| "num_plus _ NaN = NaN"
| "num_plus (Fin a) (Fin b) = Fin (a + b)"
| "num_plus PosInf NegInf = NaN"
| "num_plus NegInf PosInf = NaN"
| "num_plus (Fin a) i = i"
| "num_plus i _ = i"

fun num_negate :: "number \<Rightarrow> number" where
  "num_negate (Fin a) = Fin (- a)"
| "num_negate x = num_sign_flip x"

definition num_minus :: "number \<Rightarrow> number \<Rightarrow> number" where
  "num_minus a b = num_plus a (num_negate b)"

definition num_eq :: "number \<Rightarrow> number \<Rightarrow> bool" where
  "num_eq a b = (a \<noteq> NaN \<and> a = b)"

subsection \<open>Characters and strings\<close>

text \<open>
  Strings are lists of characters. The code only inspects ASCII characters (digits,
  letters, \<^verbatim>\<open>-\<close>); every other character is just "not in the alphabet".
\<close>

definition is_digit :: "char \<Rightarrow> bool" where
  "is_digit c = (48 \<le> (of_char c :: nat) \<and> (of_char c :: nat) \<le> 57)"

definition is_upper :: "char \<Rightarrow> bool" where
  "is_upper c = (65 \<le> (of_char c :: nat) \<and> (of_char c :: nat) \<le> 90)"

definition is_lower :: "char \<Rightarrow> bool" where
  "is_lower c = (97 \<le> (of_char c :: nat) \<and> (of_char c :: nat) \<le> 122)"

text \<open>The character class \<^verbatim>\<open>[0-9A-Za-z]\<close>.\<close>

definition is_alnum :: "char \<Rightarrow> bool" where
  "is_alnum c = (is_digit c \<or> is_upper c \<or> is_lower c)"

text \<open>\<^verbatim>\<open>String.prototype.toUpperCase\<close> on ASCII text.\<close>

definition upper_char :: "char \<Rightarrow> char" where
  "upper_char c = (if is_lower c then char_of ((of_char c :: nat) - 32) else c)"

definition toUpperCase :: "string \<Rightarrow> string" where
  "toUpperCase s = map upper_char s"

text \<open>\<^verbatim>\<open>s.padStart(n, '0')\<close>.\<close>

definition padStart0 :: "nat \<Rightarrow> string \<Rightarrow> string" where
  "padStart0 n s = replicate (n - length s) CHR ''0'' @ s"

subsection \<open>Numbers to text and back\<close>

text \<open>The digit for a value below 36, lower case as \<^verbatim>\<open>Number.prototype.toString\<close> has it.\<close>

definition digit_char :: "nat \<Rightarrow> char" where
  "digit_char k = (if k < 10 then char_of (48 + k) else char_of (87 + k))"

text \<open>The value of a digit in any radix up to 36, either case; \<open>None\<close> for any other character.\<close>

definition digit_value :: "char \<Rightarrow> nat option" where
  "digit_value c =
     (if is_digit c then Some ((of_char c :: nat) - 48)
      else if is_lower c then Some ((of_char c :: nat) - 87)
      else if is_upper c then Some ((of_char c :: nat) - 55)
      else None)"

function to_digits :: "nat \<Rightarrow> nat \<Rightarrow> string" where
  "to_digits b n =
     (if b < 2 \<or> n < b then [digit_char n]
      else to_digits b (n div b) @ [digit_char (n mod b)])"
  by pat_completeness auto
termination
  by (relation "measure (\<lambda>(b, n). n)") auto

declare to_digits.simps [simp del]

definition int_toString :: "nat \<Rightarrow> int \<Rightarrow> string" where
  "int_toString b i =
     (if i < 0 then CHR ''-'' # to_digits b (nat (- i)) else to_digits b (nat i))"

text \<open>
  \<^verbatim>\<open>n.toString(radix)\<close> and \<^verbatim>\<open>String(n)\<close> (radix 10). The code applies them to results
  of \<^verbatim>\<open>Math.floor\<close>, of \<^verbatim>\<open>parseInt\<close> and to date fields only, which are integers,
  infinities or \<open>NaN\<close>; the fraction digits of other numbers are not modelled.
\<close>

fun Number_toString :: "nat \<Rightarrow> number \<Rightarrow> string" where
  "Number_toString b NaN = ''NaN''"
| "Number_toString b PosInf = ''Infinity''"
| "Number_toString b NegInf = ''-Infinity''"
| "Number_toString b (Fin q) = int_toString b \<lfloor>q\<rfloor>"

text \<open>
  \<^verbatim>\<open>parseInt(s, radix)\<close>: leading white space and a sign are skipped, a \<^verbatim>\<open>0x\<close> prefix is
  skipped when the radix is 16 or absent, and the longest prefix of digits of the radix
  is read; no digit at all gives \<open>NaN\<close>. The radix \<open>None\<close> is the absent argument. Of
  the white space characters only those of ASCII are modelled; the code calls
  \<^verbatim>\<open>parseInt\<close> on strings of digits and letters only.
\<close>

definition is_space :: "char \<Rightarrow> bool" where
  "is_space c = ((of_char c :: nat) \<in> {9, 10, 11, 12, 13, 32})"

definition is_radix_digit :: "nat \<Rightarrow> char \<Rightarrow> bool" where
  "is_radix_digit b c = (case digit_value c of None \<Rightarrow> False | Some v \<Rightarrow> v < b)"

definition digits_value :: "nat \<Rightarrow> string \<Rightarrow> nat" where
  "digits_value b ds = foldl (\<lambda>a c. a * b + the (digit_value c)) 0 ds"

definition strip_hex :: "string \<Rightarrow> string option" where
  "strip_hex s =
     (case s of
        c0 # c1 # r \<Rightarrow>
          if c0 = CHR ''0'' \<and> (c1 = CHR ''x'' \<or> c1 = CHR ''X'') then Some r else None
      | _ \<Rightarrow> None)"

definition parseInt :: "string \<Rightarrow> nat option \<Rightarrow> number" where
  "parseInt s radix =
     (let s1 = dropWhile is_space s;
          neg = (case s1 of c # _ \<Rightarrow> c = CHR ''-'' | [] \<Rightarrow> False);
          s2 = (case s1 of c # r \<Rightarrow> if c = CHR ''-'' \<or> c = CHR ''+'' then r else s1
                | [] \<Rightarrow> s1);
          r0 = (case radix of None \<Rightarrow> 0 | Some r \<Rightarrow> r)
      in if r0 \<noteq> 0 \<and> (r0 < 2 \<or> 36 < r0) then NaN
         else
           let hex = (if r0 = 0 \<or> r0 = 16 then strip_hex s2 else None);
               b = (if r0 = 0 then (case hex of None \<Rightarrow> 10 | Some _ \<Rightarrow> 16) else r0);
               s3 = (case hex of None \<Rightarrow> s2 | Some r \<Rightarrow> r);
               ds = takeWhile (is_radix_digit b) s3
           in if ds = [] then NaN
              else Fin (of_int ((if neg then - 1 else 1) * int (digits_value b ds))))"

subsection \<open>Time values and the calendar\<close>

text \<open>
  A time value is a whole number of milliseconds since 1970-01-01T00:00:00Z. The functions
  below are those of the ECMAScript specification of \<^verbatim>\<open>Date\<close>, on integers.
\<close>

definition msPerDay :: int where
  "msPerDay = 86400000"

definition Day :: "int \<Rightarrow> int" where
  "Day t = t div msPerDay"

definition DaysInYear :: "int \<Rightarrow> int" where
  "DaysInYear y =
     (if y mod 4 \<noteq> 0 then 365 else if y mod 100 \<noteq> 0 then 366
      else if y mod 400 \<noteq> 0 then 365 else 366)"

definition DayFromYear :: "int \<Rightarrow> int" where
  "DayFromYear y =
     365 * (y - 1970) + (y - 1969) div 4 - (y - 1901) div 100 + (y - 1601) div 400"

text \<open>
  \<^verbatim>\<open>YearFromTime(t)\<close> is the largest year \<open>y\<close> with \<open>DayFromYear y \<le> Day t\<close>. It is computed
  by splitting the days since 1601-01-01 into cycles of 400, 100, 4 and 1 years; lemma
  \<open>YearFromDay_bounds\<close> below shows that this is that year.
\<close>

definition YearFromDay :: "int \<Rightarrow> int" where
  "YearFromDay d =
     (let n = d + 134774;
          q400 = n div 146097; r400 = n mod 146097;
          q100 = min 3 (r400 div 36524); r100 = r400 - q100 * 36524;
          q4 = r100 div 1461; r4 = r100 mod 1461;
          q1 = min 3 (r4 div 365)
      in 1601 + 400 * q400 + 100 * q100 + 4 * q4 + q1)"

definition YearFromTime :: "int \<Rightarrow> int" where
  "YearFromTime t = YearFromDay (Day t)"

definition leap_days :: "int \<Rightarrow> int" where
  "leap_days y = (if DaysInYear y = 366 then 1 else 0)"

definition InLeapYear :: "int \<Rightarrow> int" where
  "InLeapYear t = leap_days (YearFromTime t)"

definition DayWithinYear :: "int \<Rightarrow> int" where
  "DayWithinYear t = Day t - DayFromYear (YearFromTime t)"

text \<open>The month (0 to 11) and the day of the month of a day within a year; \<open>l\<close> is 1 in a
  leap year and 0 otherwise.\<close>

definition month_of_yday :: "int \<Rightarrow> int \<Rightarrow> int" where
  "month_of_yday l k =
     (if k < 31 then 0 else if k < 59 + l then 1 else if k < 90 + l then 2
      else if k < 120 + l then 3 else if k < 151 + l then 4 else if k < 181 + l then 5
      else if k < 212 + l then 6 else if k < 243 + l then 7 else if k < 273 + l then 8
      else if k < 304 + l then 9 else if k < 334 + l then 10 else 11)"

text \<open>The day within the year on which a month starts.\<close>

definition month_start :: "int \<Rightarrow> int \<Rightarrow> int" where
  "month_start l m =
     (if m = 0 then 0 else if m = 1 then 31 else if m = 2 then 59 + l
      else if m = 3 then 90 + l else if m = 4 then 120 + l else if m = 5 then 151 + l
      else if m = 6 then 181 + l else if m = 7 then 212 + l else if m = 8 then 243 + l
      else if m = 9 then 273 + l else if m = 10 then 304 + l else 334 + l)"

definition MonthFromTime :: "int \<Rightarrow> int" where
  "MonthFromTime t = month_of_yday (InLeapYear t) (DayWithinYear t)"

definition DateFromTime :: "int \<Rightarrow> int" where
  "DateFromTime t =
     DayWithinYear t - month_start (InLeapYear t) (MonthFromTime t) + 1"

definition HourFromTime :: "int \<Rightarrow> int" where
  "HourFromTime t = (t div 3600000) mod 24"

definition MinFromTime :: "int \<Rightarrow> int" where
  "MinFromTime t = (t div 60000) mod 60"

text \<open>
  \<^verbatim>\<open>MakeDay(year, month, date)\<close>: the month may lie outside 0 to 11 and the date outside the
  month; both carry over.
\<close>

definition MakeDay :: "int \<Rightarrow> int \<Rightarrow> int \<Rightarrow> int" where
  "MakeDay y m d =
     (let ym = y + m div 12; mn = m mod 12
      in DayFromYear ym + month_start (leap_days ym) mn + d - 1)"

definition TimeClip :: "int \<Rightarrow> int option" where
  "TimeClip t = (if \<bar>t\<bar> \<le> 8640000000000000 then Some t else None)"

text \<open>Rounding towards zero, as \<^verbatim>\<open>ToIntegerOrInfinity\<close> does on a finite number.\<close>

definition ToInteger :: "real \<Rightarrow> int" where
  "ToInteger q = (if 0 \<le> q then \<lfloor>q\<rfloor> else \<lceil>q\<rceil>)"

text \<open>
  The year argument of \<^verbatim>\<open>new Date(y, m, d)\<close> and of \<^verbatim>\<open>Date.UTC\<close>: a year from 0 to 99
  stands for 1900 to 1999.
\<close>

fun MakeFullYear :: "number \<Rightarrow> number" where
  "MakeFullYear (Fin q) =
     (if 0 \<le> ToInteger q \<and> ToInteger q \<le> 99 then Fin (of_int (1900 + ToInteger q)) else Fin q)"
| "MakeFullYear x = x"

text \<open>\<^verbatim>\<open>MakeDay\<close> on numbers: \<open>None\<close> is \<open>NaN\<close>, the result when an argument is not finite.\<close>

fun MakeDay_number :: "number \<Rightarrow> number \<Rightarrow> number \<Rightarrow> int option" where
  "MakeDay_number (Fin y) (Fin m) (Fin d) = Some (MakeDay (ToInteger y) (ToInteger m) (ToInteger d))"
| "MakeDay_number _ _ _ = None"

subsection \<open>The local time zone\<close>

text \<open>
  The host's time zone is a parameter. \<open>utc_offset\<close> gives the offset of local time from
  UTC, in milliseconds, at a UTC time value; \<open>local_offset\<close> gives the offset that the host
  applies to a local time value when it converts it to UTC (at a skipped or repeated
  local time the host chooses one, as ECMAScript's \<^verbatim>\<open>UTC(t)\<close> prescribes).
\<close>

record timezone =
  utc_offset :: "int \<Rightarrow> int"
  local_offset :: "int \<Rightarrow> int"

definition LocalTime :: "timezone \<Rightarrow> int \<Rightarrow> int" where
  "LocalTime tz t = t + utc_offset tz t"

definition UTC :: "timezone \<Rightarrow> int \<Rightarrow> int" where
  "UTC tz t = t - local_offset tz t"

text \<open>A zone with the same offset at all times.\<close>

definition fixed_zone :: "int \<Rightarrow> timezone" where
  "fixed_zone off = \<lparr>utc_offset = (\<lambda>_. off), local_offset = (\<lambda>_. off)\<rparr>"

subsection \<open>\<^verbatim>\<open>Date\<close> objects\<close>

text \<open>A \<^verbatim>\<open>Date\<close> holds a time value, or \<open>NaN\<close> (\<open>None\<close>: an invalid date).\<close>

datatype Date = Date (time_value: "int option")

text \<open>\<^verbatim>\<open>new Date(value)\<close> for a number.\<close>

fun Date_of_value :: "number \<Rightarrow> Date" where
  "Date_of_value (Fin q) =
     Date (if \<bar>q\<bar> \<le> 8640000000000000 then Some (ToInteger q) else None)"
| "Date_of_value _ = Date None"

text \<open>\<^verbatim>\<open>new Date(year, month, date)\<close>: the fields are local time.\<close>

definition Date_of_fields :: "timezone \<Rightarrow> number \<Rightarrow> number \<Rightarrow> number \<Rightarrow> Date" where
  "Date_of_fields tz y m d =
     (case MakeDay_number (MakeFullYear y) m d of
        None \<Rightarrow> Date None
      | Some day \<Rightarrow> Date (TimeClip (UTC tz (day * msPerDay))))"

text \<open>\<^verbatim>\<open>Date.UTC(year, month, date)\<close>.\<close>

definition Date_UTC :: "number \<Rightarrow> number \<Rightarrow> number \<Rightarrow> number" where
  "Date_UTC y m d =
     (case MakeDay_number (MakeFullYear y) m d of
        None \<Rightarrow> NaN
      | Some day \<Rightarrow>
          (case TimeClip (day * msPerDay) of None \<Rightarrow> NaN | Some t \<Rightarrow> Fin (of_int t)))"

definition date_field :: "(int \<Rightarrow> int) \<Rightarrow> int option \<Rightarrow> number" where
  "date_field f tv = (case tv of None \<Rightarrow> NaN | Some t \<Rightarrow> Fin (of_int (f t)))"

definition getFullYear :: "timezone \<Rightarrow> Date \<Rightarrow> number" where
  "getFullYear tz date = date_field (\<lambda>t. YearFromTime (LocalTime tz t)) (time_value date)"

definition getMonth :: "timezone \<Rightarrow> Date \<Rightarrow> number" where
  "getMonth tz date = date_field (\<lambda>t. MonthFromTime (LocalTime tz t)) (time_value date)"

definition getDate :: "timezone \<Rightarrow> Date \<Rightarrow> number" where
  "getDate tz date = date_field (\<lambda>t. DateFromTime (LocalTime tz t)) (time_value date)"

definition getUTCFullYear :: "Date \<Rightarrow> number" where
  "getUTCFullYear date = date_field YearFromTime (time_value date)"

definition getUTCMonth :: "Date \<Rightarrow> number" where
  "getUTCMonth date = date_field MonthFromTime (time_value date)"

definition getUTCDate :: "Date \<Rightarrow> number" where
  "getUTCDate date = date_field DateFromTime (time_value date)"

definition getUTCHours :: "Date \<Rightarrow> number" where
  "getUTCHours date = date_field HourFromTime (time_value date)"

definition getUTCMinutes :: "Date \<Rightarrow> number" where
  "getUTCMinutes date = date_field MinFromTime (time_value date)"

section \<open>The source: \<^verbatim>\<open>src/index.ts\<close>\<close>

text \<open>Every \<^verbatim>\<open>throw new Error(msg)\<close> of the source is the value \<open>Inl (Error msg)\<close>.\<close>

datatype error = Error string

definition MS_PER_DAY :: number where
  "MS_PER_DAY = Fin 86400000"

definition MIN_DAYS :: number where
  "MIN_DAYS = Fin 1296"

definition MAX_DAYS :: number where
  "MAX_DAYS = Fin 46655"

text \<open>\<^verbatim>\<open>CODE_REGEX = /^[0-9A-Za-z]{3}$/\<close>, as \<^verbatim>\<open>CODE_REGEX.test(s)\<close>.\<close>

definition CODE_REGEX_test :: "string \<Rightarrow> bool" where
  "CODE_REGEX_test s = (length s = 3 \<and> list_all is_alnum s)"

text \<open>
  \<^verbatim>\<open>encode\<close>: the range check is on the argument as given, the floor is taken afterwards.
\<close>

definition encode :: "number \<Rightarrow> error + string" where
  "encode days =
     (if num_less days MIN_DAYS \<or> num_greater days MAX_DAYS
      then Inl (Error ''Days out of range'')
      else Inr (padStart0 3 (toUpperCase (Number_toString 36 (Math_floor days)))))"

definition decode :: "string \<Rightarrow> error + number" where
  "decode code =
     (if \<not> CODE_REGEX_test code then Inl (Error ''Invalid civil-date code'')
      else let days = parseInt code (Some 36)
           in if isNaN days then Inl (Error ''Invalid civil-date code'')
              else Inr days)"

text \<open>
  \<^verbatim>\<open>ISO_REGEX = /^(\d{4})-(0[1-9]|1[0-2])-(0[1-9]|[12]\d|3[01])$/\<close>, as
  \<^verbatim>\<open>s.match(ISO_REGEX)\<close>: the three captured groups, or \<open>None\<close> for \<^verbatim>\<open>null\<close>.
\<close>

definition char_between :: "char \<Rightarrow> char \<Rightarrow> char \<Rightarrow> bool" where
  "char_between lo hi c = ((of_char lo :: nat) \<le> of_char c \<and> (of_char c :: nat) \<le> of_char hi)"

definition month_group :: "char \<Rightarrow> char \<Rightarrow> bool" where
  "month_group a b =
     ((a = CHR ''0'' \<and> char_between CHR ''1'' CHR ''9'' b) \<or>
      (a = CHR ''1'' \<and> char_between CHR ''0'' CHR ''2'' b))"

definition day_group :: "char \<Rightarrow> char \<Rightarrow> bool" where
  "day_group a b =
     ((a = CHR ''0'' \<and> char_between CHR ''1'' CHR ''9'' b) \<or>
      ((a = CHR ''1'' \<or> a = CHR ''2'') \<and> is_digit b) \<or>
      (a = CHR ''3'' \<and> char_between CHR ''0'' CHR ''1'' b))"

definition ISO_REGEX_match :: "string \<Rightarrow> (string \<times> string \<times> string) option" where
  "ISO_REGEX_match s =
     (if length s = 10 \<and> list_all is_digit (take 4 s) \<and> s ! 4 = CHR ''-'' \<and>
         month_group (s ! 5) (s ! 6) \<and> s ! 7 = CHR ''-'' \<and> day_group (s ! 8) (s ! 9)
      then Some (take 4 s, take 2 (drop 5 s), drop 8 s)
      else None)"

text \<open>\<^verbatim>\<open>fromDate\<close> reads the local fields of the date.\<close>

definition fromDate :: "timezone \<Rightarrow> Date \<Rightarrow> number" where
  "fromDate tz date =
     (let year = getFullYear tz date;
          month = getMonth tz date;
          day = getDate tz date;
          utcTimestamp = Date_UTC year month day
      in Math_floor (num_divide utcTimestamp MS_PER_DAY))"

text \<open>The argument of \<^verbatim>\<open>toDate\<close>: \<^verbatim>\<open>number | string\<close>.\<close>

datatype days_or_code = Days number | Code string

definition toDate :: "days_or_code \<Rightarrow> error + Date" where
  "toDate v =
     (case (case v of Code s \<Rightarrow> decode s | Days n \<Rightarrow> Inr n) of
        Inl e \<Rightarrow> Inl e
      | Inr days \<Rightarrow> Inr (Date_of_value (num_times days MS_PER_DAY)))"

definition toISOString :: "timezone \<Rightarrow> Date \<Rightarrow> string" where
  "toISOString tz date =
     (let y = getFullYear tz date;
          m = padStart0 2 (Number_toString 10 (num_plus (getMonth tz date) (Fin 1)));
          d = padStart0 2 (Number_toString 10 (getDate tz date))
      in Number_toString 10 y @ ''-'' @ m @ ''-'' @ d)"

text \<open>
  The class \<^verbatim>\<open>CivilDate\<close>. Its constructor reads the host's time zone and, without an
  argument, the current time.
\<close>

record host =
  zone :: timezone
  now :: int

record CivilDate =
  "value" :: number

datatype ctor_arg = NoArg | DateArg Date | NumberArg number | StringArg string

definition CivilDate_new :: "host \<Rightarrow> ctor_arg \<Rightarrow> error + CivilDate" where
  "CivilDate_new h arg =
     (case arg of
        DateArg date \<Rightarrow> Inr \<lparr>value = fromDate (zone h) date\<rparr>
      | NoArg \<Rightarrow> Inr \<lparr>value = fromDate (zone h) (Date (Some (now h)))\<rparr>
      | NumberArg n \<Rightarrow>
          if num_less n MIN_DAYS \<or> num_greater n MAX_DAYS
          then Inl (Error ''Days out of range'')
          else Inr \<lparr>value = n\<rparr>
      | StringArg s \<Rightarrow>
          (case ISO_REGEX_match s of
             Some (g1, g2, g3) \<Rightarrow>
               let y = parseInt g1 None;
                   m = parseInt g2 None;
                   d = parseInt g3 None;
                   date = Date_of_fields (zone h) y (num_minus m (Fin 1)) d;
                   valid = (num_eq (getFullYear (zone h) date) y \<and>
                            num_eq (getMonth (zone h) date) (num_minus m (Fin 1)) \<and>
                            num_eq (getDate (zone h) date) d)
               in if valid then Inr \<lparr>value = fromDate (zone h) date\<rparr>
                  else Inl (Error ''Invalid date'')
           | None \<Rightarrow>
               (case decode s of Inl e \<Rightarrow> Inl e | Inr days \<Rightarrow> Inr \<lparr>value = days\<rparr>)))"

definition CivilDate_toString :: "CivilDate \<Rightarrow> error + string" where
  "CivilDate_toString c = encode (value c)"

definition CivilDate_toDate :: "CivilDate \<Rightarrow> error + Date" where
  "CivilDate_toDate c = toDate (Days (value c))"

definition CivilDate_toISOString :: "host \<Rightarrow> CivilDate \<Rightarrow> error + string" where
  "CivilDate_toISOString h c =
     (case toDate (Days (value c)) of
        Inl e \<Rightarrow> Inl e
      | Inr date \<Rightarrow>
          let local = Date_of_fields (zone h) (getUTCFullYear date) (getUTCMonth date)
                        (getUTCDate date)
          in Inr (toISOString (zone h) local))"

section \<open>The specification's notions\<close>

text \<open>
  The specification's words for the output of \<^verbatim>\<open>encode\<close>: the base-36 digits of the day
  count, with the upper-case letters A to Z for the digit values 10 to 35, on exactly three
  characters.
\<close>

definition upper_digit :: "nat \<Rightarrow> char" where
  "upper_digit k = (if k < 10 then char_of (48 + k) else char_of (55 + k))"

definition radix36_code :: "nat \<Rightarrow> string" where
  "radix36_code n = [upper_digit (n div 1296), upper_digit (n div 36 mod 36), upper_digit (n mod 36)]"

text \<open>
  The specification's reading of a real calendar date: a month from 1 to 12 and a day from 1
  to the length of that month, February having 29 days in a leap year of the Gregorian
  calendar.
\<close>

definition leap_year :: "int \<Rightarrow> bool" where
  "leap_year y = (y mod 4 = 0 \<and> (y mod 100 \<noteq> 0 \<or> y mod 400 = 0))"

definition days_in_month :: "int \<Rightarrow> int \<Rightarrow> int" where
  "days_in_month y m =
     (if m = 2 then (if leap_year y then 29 else 28)
      else if m = 4 \<or> m = 6 \<or> m = 9 \<or> m = 11 then 30 else 31)"

definition real_date :: "int \<Rightarrow> int \<Rightarrow> int \<Rightarrow> bool" where
  "real_date y m d = (1 \<le> m \<and> m \<le> 12 \<and> 1 \<le> d \<and> d \<le> days_in_month y m)"

text \<open>The number that a string of decimal digits denotes.\<close>

definition decimal :: "string \<Rightarrow> int" where
  "decimal g = int (digits_value 10 g)"

section \<open>Auxiliary definitions\<close>

text \<open>The length of month \<open>m\<close> (0 to 11), as the table of month starts gives it.\<close>

definition month_length :: "int \<Rightarrow> int \<Rightarrow> int" where
  "month_length l m = (if m = 1 then 28 + l else if m \<in> {3, 5, 8, 10} then 30 else 31)"

text \<open>Day \<open>k\<close> of a year lies in month \<open>m\<close>.\<close>

definition in_month :: "int \<Rightarrow> int \<Rightarrow> int \<Rightarrow> bool" where
  "in_month l k m =
     (0 \<le> m \<and> m \<le> 11 \<and> month_start l m \<le> k \<and> k < month_start l m + month_length l m)"


text \<open>The value of a decimal digit.\<close>

definition dv :: "char \<Rightarrow> nat" where
  "dv c = (of_char c :: nat) - 48"

text \<open>
  The condition on the host's time zone under which a local midnight \<open>lt\<close> is a time of the
  calendar day it names: the \<^verbatim>\<open>Date\<close> built from the local time \<open>lt\<close> is valid and its
  local fields are those of the day of \<open>lt\<close>. It holds in every zone with a fixed offset,
  and fails for a local date that the zone skips.
\<close>

definition keeps_local_date :: "timezone \<Rightarrow> int \<Rightarrow> bool" where
  "keeps_local_date tz lt =
     (case TimeClip (UTC tz lt) of
        None \<Rightarrow> False
      | Some u \<Rightarrow> Day (LocalTime tz u) = Day lt)"

text \<open>
  Two hosts for the examples. The first is six hours behind UTC at all times, the zone of
  the repository's tests, at 2023-03-14T22:15:37-06:00. The second is a zone that, like
  Pacific/Apia at the end of 2011-12-29, moves from ten hours behind UTC to fourteen hours
  ahead at 2011-12-30T10:00:00Z, so that the local date 2011-12-30 does not exist; a local
  time in the gap is converted with the offset before the change.
\<close>

definition central_host :: host where
  "central_host = \<lparr>zone = fixed_zone (- 21600000), now = 1678853737000\<rparr>"

definition dateline_zone :: timezone where
  "dateline_zone =
     \<lparr>utc_offset = (\<lambda>t. if t < 1325239200000 then - 36000000 else 50400000),
      local_offset = (\<lambda>t. if t < 1325289600000 then - 36000000 else 50400000)\<rparr>"

definition dateline_host :: host where
  "dateline_host = \<lparr>zone = dateline_zone, now = 1678853737000\<rparr>"

section \<open>The Radix-36 codec\<close>

subsection \<open>Digits\<close>

lemma upper_digit_eq: "k < 36 \<Longrightarrow> upper_char (digit_char k) = upper_digit k"
  by (simp add: upper_char_def digit_char_def upper_digit_def is_lower_def)

lemma digit_value_digit_char: "k < 36 \<Longrightarrow> digit_value (digit_char k) = Some k"
  by (simp add: digit_value_def digit_char_def is_digit_def is_lower_def is_upper_def)

lemma of_char_less_256: "(of_char c :: nat) < 256"
proof -
  have "(of_char c :: nat) = of_char (char_of (of_char c :: nat))" by simp
  also have "\<dots> = (of_char c :: nat) mod 256" by (simp only: of_char_of)
  finally show ?thesis by (metis mod_less_divisor zero_less_numeral)
qed

lemma char_of_sub32: 
  assumes "is_lower c" shows "(of_char (upper_char c) :: nat) = of_char c - 32"
proof -
  have "(of_char c :: nat) - 32 < 256" using of_char_less_256 [of c] by arith
  then show ?thesis using assms by (simp add: upper_char_def)
qed

lemma digit_value_upper_char: "digit_value (upper_char c) = digit_value c"
proof (cases "is_lower c")
  case True
  let ?n = "of_char c :: nat"
  have n: "97 \<le> ?n" "?n \<le> 122" using True by (simp_all add: is_lower_def)
  have u: "(of_char (upper_char c) :: nat) = ?n - 32" by (rule char_of_sub32 [OF True])
  have "\<not> is_digit (upper_char c)" "\<not> is_lower (upper_char c)" "is_upper (upper_char c)"
    using n unfolding is_digit_def is_lower_def is_upper_def u by arith+
  then have "digit_value (upper_char c) = Some (?n - 32 - 55)"
    by (simp add: digit_value_def u)
  moreover have "\<not> is_digit c" using n unfolding is_digit_def by arith
  then have "digit_value c = Some (?n - 87)" using True by (simp add: digit_value_def)
  ultimately show ?thesis by simp
next
  case False
  then show ?thesis by (simp add: upper_char_def)
qed

lemma is_alnum_upper_char: "is_alnum (upper_char c) = is_alnum c"
proof (cases "is_lower c")
  case True
  then show ?thesis using char_of_sub32 [OF True]
    unfolding is_alnum_def is_digit_def is_lower_def is_upper_def by arith
next
  case False
  then show ?thesis by (simp add: upper_char_def)
qed

lemma to_digits_three:
  assumes "1296 \<le> n" "n \<le> 46655"
  shows "to_digits 36 n = [digit_char (n div 1296), digit_char (n div 36 mod 36), digit_char (n mod 36)]"
proof -
  have a: "\<not> n < 36" "\<not> n div 36 < 36" "n div 36 div 36 < 36" using assms by auto
  have b: "n div 36 div 36 = n div 1296" by (simp add: div_mult2_eq)
  have "to_digits 36 (n div 36 div 36) = [digit_char (n div 36 div 36)]"
    using a by (subst to_digits.simps) simp
  moreover have "to_digits 36 (n div 36) = to_digits 36 (n div 36 div 36) @ [digit_char (n div 36 mod 36)]"
    using a by (subst to_digits.simps) simp
  moreover have "to_digits 36 n = to_digits 36 (n div 36) @ [digit_char (n mod 36)]"
    using a by (subst to_digits.simps) simp
  ultimately show ?thesis using b by simp
qed

lemma alnum_digit_value:
  assumes "is_alnum c"
  shows "\<exists>v<36. digit_value c = Some v"
proof -
  let ?n = "of_char c :: nat"
  consider "is_digit c" | "\<not> is_digit c" "is_lower c" | "\<not> is_digit c" "\<not> is_lower c" "is_upper c"
    using assms by (auto simp: is_alnum_def)
  then show ?thesis
  proof cases
    case 1
    then have "?n - 48 < 36" unfolding is_digit_def by arith
    then show ?thesis using 1 by (simp add: digit_value_def)
  next
    case 2
    then have "?n - 87 < 36" unfolding is_lower_def by arith
    then show ?thesis using 2 by (simp add: digit_value_def)
  next
    case 3
    then have "?n - 55 < 36" unfolding is_upper_def by arith
    then show ?thesis using 3 by (simp add: digit_value_def)
  qed
qed

lemma alnum_radix_digit: "is_alnum c \<Longrightarrow> is_radix_digit 36 c"
  using alnum_digit_value [of c] by (auto simp: is_radix_digit_def)

lemma alnum_not_space: "is_alnum c \<Longrightarrow> \<not> is_space c"
  unfolding is_alnum_def is_space_def is_digit_def is_upper_def is_lower_def
  by (simp only: insert_iff empty_iff) arith

lemma of_char_minus: "(of_char CHR ''-'' :: nat) = 45"
  by simp

lemma of_char_plus: "(of_char CHR ''+'' :: nat) = 43"
  by simp

lemma alnum_not_sign:
  assumes "is_alnum c" shows "c \<noteq> CHR ''-'' \<and> c \<noteq> CHR ''+''"
proof -
  have "(of_char c :: nat) \<noteq> 45 \<and> (of_char c :: nat) \<noteq> 43"
    using assms unfolding is_alnum_def is_digit_def is_upper_def is_lower_def by arith
  then show ?thesis using of_char_minus of_char_plus by metis
qed

lemma parseInt_code:
  assumes "CODE_REGEX_test s"
  shows "parseInt s (Some 36) = Fin (of_nat (digits_value 36 s))"
proof -
  obtain a b c where s: "s = [a, b, c]" and al: "is_alnum a" "is_alnum b" "is_alnum c"
  proof -
    from assms have l: "length s = 3" and p: "list_all is_alnum s"
      by (simp_all add: CODE_REGEX_test_def)
    from l obtain a b c where "s = [a, b, c]"
      by (auto simp: length_Suc_conv numeral_3_eq_3)
    with p that show ?thesis by simp
  qed
  have 1: "dropWhile is_space s = s" using alnum_not_space [OF al(1)] by (simp add: s)
  have 2: "a \<noteq> CHR ''-''" "a \<noteq> CHR ''+''" using alnum_not_sign [OF al(1)] by simp_all
  have 3: "takeWhile (is_radix_digit 36) s = s"
    using al by (simp add: s alnum_radix_digit)
  show ?thesis
    unfolding parseInt_def 1 using 2 3 by (simp add: s)
qed

lemma code_regex_three:
  assumes "CODE_REGEX_test s"
  obtains a b c where "s = [a, b, c]" "is_alnum a" "is_alnum b" "is_alnum c"
proof -
  from assms have l: "length s = 3" and p: "list_all is_alnum s"
    by (simp_all add: CODE_REGEX_test_def)
  from l obtain a b c where "s = [a, b, c]"
    by (auto simp: length_Suc_conv numeral_3_eq_3)
  with p that show ?thesis by simp
qed

lemma digits_value_three:
  "digits_value 36 [a, b, c] =
     (the (digit_value a) * 36 + the (digit_value b)) * 36 + the (digit_value c)"
  by (simp add: digits_value_def)

lemma digits_value_bound:
  assumes "CODE_REGEX_test s"
  shows "digits_value 36 s \<le> 46655"
proof -
  from assms obtain a b c where s: "s = [a, b, c]" and al: "is_alnum a" "is_alnum b" "is_alnum c"
    by (rule code_regex_three)
  from alnum_digit_value [OF al(1)] obtain x where vx: "digit_value a = Some x" "x < 36" by blast
  from alnum_digit_value [OF al(2)] obtain y where vy: "digit_value b = Some y" "y < 36" by blast
  from alnum_digit_value [OF al(3)] obtain z where vz: "digit_value c = Some z" "z < 36" by blast
  note v = vx vy vz
  have "(x * 36 + y) * 36 + z \<le> 46655" using v by arith
  then show ?thesis unfolding s digits_value_three using v by simp
qed

lemma decode_char:
  "decode s = (if CODE_REGEX_test s then Inr (Fin (of_nat (digits_value 36 s)))
               else Inl (Error ''Invalid civil-date code''))"
  by (simp add: decode_def parseInt_code)

lemma code_regex_upper: "CODE_REGEX_test (toUpperCase s) = CODE_REGEX_test s"
  by (simp add: CODE_REGEX_test_def toUpperCase_def list_all_iff is_alnum_upper_char)

lemma digits_value_upper: "digits_value b (toUpperCase s) = digits_value b s"
proof -
  have "foldl (\<lambda>a c. a * b + the (digit_value c)) k (map upper_char s)
      = foldl (\<lambda>a c. a * b + the (digit_value c)) k s" for k
    by (induction s arbitrary: k) (simp_all add: digit_value_upper_char)
  then show ?thesis by (simp add: digits_value_def toUpperCase_def)
qed

lemma decode_upper: "decode (toUpperCase s) = decode s"
  by (simp add: decode_char code_regex_upper digits_value_upper)

lemma upper_digit_alnum: "k < 36 \<Longrightarrow> is_alnum (upper_digit k)"
  by (simp add: upper_digit_def is_alnum_def is_digit_def is_upper_def is_lower_def)

lemma upper_digit_value: "k < 36 \<Longrightarrow> digit_value (upper_digit k) = Some k"
  by (simp add: upper_digit_def digit_value_def is_digit_def is_upper_def is_lower_def)

lemma radix36_code_regex: "n \<le> 46655 \<Longrightarrow> CODE_REGEX_test (radix36_code n)"
proof -
  assume "n \<le> 46655"
  then have "n div 1296 < 36" by simp
  then show ?thesis
    by (simp add: CODE_REGEX_test_def radix36_code_def upper_digit_alnum)
qed

lemma radix36_code_value: 
  assumes "n \<le> 46655" shows "digits_value 36 (radix36_code n) = n"
proof -
  have a: "n div 1296 < 36" using assms by simp
  have "n div 1296 = n div 36 div 36" by (simp only: div_mult2_eq [symmetric]) simp
  then have "(n div 1296 * 36 + n div 36 mod 36) * 36 + n mod 36 = n"
    by simp
  then show ?thesis
    unfolding radix36_code_def digits_value_three using a by (simp add: upper_digit_value)
qed

lemma encode_Fin:
  "encode (Fin q) =
     (if 1296 \<le> q \<and> q \<le> 46655 then Inr (radix36_code (nat \<lfloor>q\<rfloor>))
      else Inl (Error ''Days out of range''))"
proof (cases "1296 \<le> q \<and> q \<le> 46655")
  case True
  let ?n = "nat \<lfloor>q\<rfloor>"
  have f: "1296 \<le> \<lfloor>q\<rfloor>" "\<lfloor>q\<rfloor> \<le> 46655" using True by (simp_all add: le_floor_iff floor_le_iff)
  then have n: "1296 \<le> ?n" "?n \<le> 46655" by linarith+
  have k: "?n div 1296 < 36" "?n div 36 mod 36 < 36" "?n mod 36 < 36" using n by simp_all
  have "\<lfloor>(of_int \<lfloor>q\<rfloor> :: real)\<rfloor> = \<lfloor>q\<rfloor>" by simp
  then have "Number_toString 36 (Math_floor (Fin q)) = to_digits 36 ?n"
    using f by (simp add: int_toString_def)
  then have "toUpperCase (Number_toString 36 (Math_floor (Fin q))) = radix36_code ?n"
    using k by (simp add: to_digits_three [OF n] toUpperCase_def radix36_code_def upper_digit_eq)
  moreover have "padStart0 3 (radix36_code ?n) = radix36_code ?n"
    by (simp add: padStart0_def radix36_code_def)
  ultimately show ?thesis using True
    by (simp add: encode_def MIN_DAYS_def MAX_DAYS_def num_greater_def)
next
  case False
  then show ?thesis
    by (auto simp: encode_def MIN_DAYS_def MAX_DAYS_def num_greater_def)
qed

lemma upper_digit_of_value:
  assumes "is_alnum c"
  shows "upper_digit (the (digit_value c)) = upper_char c"
proof -
  let ?n = "of_char c :: nat"
  consider "is_digit c" | "\<not> is_digit c" "is_lower c" | "\<not> is_digit c" "\<not> is_lower c" "is_upper c"
    using assms by (auto simp: is_alnum_def)
  then show ?thesis
  proof cases
    case 1
    then have "?n - 48 < 10" "48 + (?n - 48) = ?n" "\<not> is_lower c"
      unfolding is_digit_def is_lower_def by arith+
    then show ?thesis using 1 by (simp add: digit_value_def upper_digit_def upper_char_def)
  next
    case 2
    then have "\<not> ?n - 87 < 10" "55 + (?n - 87) = ?n - 32" unfolding is_lower_def by arith+
    then show ?thesis using 2 by (simp add: digit_value_def upper_digit_def upper_char_def)
  next
    case 3
    then have "\<not> ?n - 55 < 10" "55 + (?n - 55) = ?n" unfolding is_upper_def by arith+
    then show ?thesis using 3 by (simp add: digit_value_def upper_digit_def upper_char_def)
  qed
qed

lemma div_mod_36: "z < 36 \<Longrightarrow> (k * 36 + z) div 36 = k \<and> (k * 36 + z) mod 36 = (z::nat)"
  by simp

lemma radix36_code_of_value:
  assumes "CODE_REGEX_test s"
  shows "radix36_code (digits_value 36 s) = toUpperCase s"
proof -
  from assms obtain a b c where s: "s = [a, b, c]" and al: "is_alnum a" "is_alnum b" "is_alnum c"
    by (rule code_regex_three)
  from alnum_digit_value [OF al(1)] obtain x where vx: "digit_value a = Some x" "x < 36" by blast
  from alnum_digit_value [OF al(2)] obtain y where vy: "digit_value b = Some y" "y < 36" by blast
  from alnum_digit_value [OF al(3)] obtain z where vz: "digit_value c = Some z" "z < 36" by blast
  note v = vx vy vz
  let ?n = "(x * 36 + y) * 36 + z"
  have d1: "?n div 36 = x * 36 + y" "?n mod 36 = z" using div_mod_36 [OF v(6), of "x * 36 + y"] by blast+
  have d2: "(x * 36 + y) div 36 = x" "(x * 36 + y) mod 36 = y" using div_mod_36 [OF v(4), of x] by blast+
  have "?n div 1296 = ?n div 36 div 36" by (simp only: div_mult2_eq [symmetric]) simp
  then have d: "?n div 1296 = x" "?n div 36 mod 36 = y" "?n mod 36 = z"
    using d1 d2 by simp_all
  have "upper_digit x = upper_char a" "upper_digit y = upper_char b" "upper_digit z = upper_char c"
    using upper_digit_of_value [OF al(1)] upper_digit_of_value [OF al(2)]
      upper_digit_of_value [OF al(3)] v by simp_all
  then show ?thesis
    unfolding s digits_value_three radix36_code_def toUpperCase_def using v d by simp
qed

subsection \<open>Evaluating the codec on literals\<close>

lemmas char_simps =
  is_alnum_def is_digit_def is_upper_def is_lower_def digit_value_def upper_char_def

lemma encode_FRX: "encode (Fin 20445) = Inr ''FRX''"
  by (simp add: encode_Fin radix36_code_def upper_digit_def, code_simp)

lemma decode_FRX: "decode ''FRX'' = Inr (Fin 20445)"
  by (simp add: decode_char CODE_REGEX_test_def digits_value_three char_simps)

lemma upper_frx: "toUpperCase ''frx'' = ''FRX''"
  by (simp add: toUpperCase_def char_simps, code_simp)

section \<open>The calendar\<close>

subsection \<open>Years\<close>

lemma DayFromYear_decomp:
  fixes a b c e :: int
  assumes "0 \<le> b" "b \<le> 3" "0 \<le> c" "c \<le> 24" "0 \<le> e" "e \<le> 3"
  shows "DayFromYear (1601 + 400 * a + 100 * b + 4 * c + e) =
         146097 * a + 36524 * b + 1461 * c + 365 * e - 134774"
proof -
  let ?y = "1601 + 400 * a + 100 * b + 4 * c + e"
  have 1: "(?y - 1969) div 4 = 100 * a + 25 * b + c - 92"
    using assms by (intro int_div_pos_eq [where r = e]) auto
  have 2: "(?y - 1901) div 100 = 4 * a + b - 3"
    using assms by (intro int_div_pos_eq [where r = "4 * c + e"]) auto
  have 3: "(?y - 1601) div 400 = a"
    using assms by (intro int_div_pos_eq [where r = "100 * b + 4 * c + e"]) auto
  show ?thesis unfolding DayFromYear_def 1 2 3 by simp
qed

lemma div_step:
  fixes x n :: int
  assumes "0 < n"
  shows "(x + 1) div n = x div n + (if (x + 1) mod n = 0 then 1 else 0)"
proof -
  let ?q = "x div n" and ?r = "x mod n"
  have x: "x = n * ?q + ?r" by simp
  have r: "0 \<le> ?r" "?r < n" using assms by simp_all
  show ?thesis
  proof (cases "?r + 1 = n")
    case True
    have "x + 1 = n * ?q + n" using x True by linarith
    then have e: "x + 1 = n * (?q + 1) + 0" by (simp add: algebra_simps)
    have "(x + 1) div n = ?q + 1" using assms by (intro int_div_pos_eq [OF e]) auto
    moreover have "(x + 1) mod n = 0" using assms by (intro int_mod_pos_eq [OF e]) auto
    ultimately show ?thesis by simp
  next
    case False
    then have lt: "?r + 1 < n" using r by linarith
    have e: "x + 1 = n * ?q + (?r + 1)" using x by linarith
    have "(x + 1) div n = ?q" using r lt by (intro int_div_pos_eq [OF e]) auto
    moreover have "(x + 1) mod n = ?r + 1" using r lt by (intro int_mod_pos_eq [OF e]) auto
    ultimately show ?thesis using r by simp
  qed
qed

lemma mod_shift:
  fixes y n k :: int
  shows "(y - n * k) mod n = y mod n"
proof -
  have "(y - n * k) mod n = (y + n * (- k)) mod n" by simp
  also have "\<dots> = y mod n" by (rule mod_mult_self2)
  finally show ?thesis .
qed

lemma DayFromYear_step: "DayFromYear (y + 1) = DayFromYear y + DaysInYear y"
proof -
  have a: "(y + 1 - 1969) div 4 = (y - 1969) div 4 + (if y mod 4 = 0 then 1 else 0)"
  proof -
    have "(y - 1969 + 1) mod 4 = y mod 4" using mod_shift [of y 4 492] by simp
    moreover have "y + 1 - 1969 = y - 1969 + 1" by simp
    ultimately show ?thesis using div_step [of 4 "y - 1969"] by simp
  qed
  have b: "(y + 1 - 1901) div 100 = (y - 1901) div 100 + (if y mod 100 = 0 then 1 else 0)"
  proof -
    have "(y - 1901 + 1) mod 100 = y mod 100" using mod_shift [of y 100 19] by simp
    moreover have "y + 1 - 1901 = y - 1901 + 1" by simp
    ultimately show ?thesis using div_step [of 100 "y - 1901"] by simp
  qed
  have c: "(y + 1 - 1601) div 400 = (y - 1601) div 400 + (if y mod 400 = 0 then 1 else 0)"
  proof -
    have "(y - 1601 + 1) mod 400 = y mod 400" using mod_shift [of y 400 4] by simp
    moreover have "y + 1 - 1601 = y - 1601 + 1" by simp
    ultimately show ?thesis using div_step [of 400 "y - 1601"] by simp
  qed
  have d: "y mod 4 = 0" if "y mod 100 = 0"
    using that mod_mod_cancel [of 4 100 y] by simp
  have e: "y mod 100 = 0" if "y mod 400 = 0"
    using that mod_mod_cancel [of 100 400 y] by simp
  have "DayFromYear (y + 1) =
      365 * (y + 1 - 1970) + (y + 1 - 1969) div 4 - (y + 1 - 1901) div 100 + (y + 1 - 1601) div 400"
    by (simp only: DayFromYear_def)
  then show ?thesis
    unfolding a b c DaysInYear_def DayFromYear_def using d e by (simp split: if_splits)
qed


lemma DaysInYear_decomp:
  fixes a b c e :: int
  assumes "0 \<le> b" "b \<le> 3" "0 \<le> c" "c \<le> 24" "0 \<le> e" "e \<le> 3"
  shows "DaysInYear (1601 + 400 * a + 100 * b + 4 * c + e) =
         (if e = 3 \<and> (c < 24 \<or> b = 3) then 366 else 365)"
proof -
  let ?y = "1601 + 400 * a + 100 * b + 4 * c + e"
  show ?thesis
  proof (cases "e = 3")
    case False
    have eq: "?y = 4 * (400 + 100 * a + 25 * b + c) + (e + 1)" by simp
    have "?y mod 4 = e + 1"
      using assms False by (intro int_mod_pos_eq [OF eq]) auto
    then show ?thesis using assms False by (simp add: DaysInYear_def)
  next
    case True
    have eq: "?y = 4 * (401 + 100 * a + 25 * b + c) + 0" using True by simp
    have m4: "?y mod 4 = 0" by (intro int_mod_pos_eq [OF eq]) auto
    show ?thesis
    proof (cases "c = 24")
      case False
      have eq: "?y = 100 * (16 + 4 * a + b) + (4 * c + 4)" using True by simp
      have "?y mod 100 = 4 * c + 4"
        using assms False by (intro int_mod_pos_eq [OF eq]) auto
      then show ?thesis using assms True False m4 by (simp add: DaysInYear_def)
    next
      case c: True
      have eq: "?y = 100 * (17 + 4 * a + b) + 0" using True c by simp
      have m100: "?y mod 100 = 0" by (intro int_mod_pos_eq [OF eq]) auto
      show ?thesis
      proof (cases "b = 3")
        case False
        have eq: "?y = 400 * (4 + a) + (100 * b + 100)" using True c by simp
        have "?y mod 400 = 100 * b + 100"
          using assms False by (intro int_mod_pos_eq [OF eq]) auto
        then show ?thesis using assms True c False m4 m100 by (simp add: DaysInYear_def)
      next
        case b: True
        have eq: "?y = 400 * (5 + a) + 0" using True c b by simp
        have "?y mod 400 = 0" by (intro int_mod_pos_eq [OF eq]) auto
        then show ?thesis using True c b m4 m100 by (simp add: DaysInYear_def)
      qed
    qed
  qed
qed

lemma YearFromDay_bounds:
  "DayFromYear (YearFromDay d) \<le> d \<and>
   d < DayFromYear (YearFromDay d) + DaysInYear (YearFromDay d)"
proof -
  define n where "n = d + 134774"
  define a where "a = n div 146097"
  define r400 where "r400 = n mod 146097"
  define q where "q = r400 div 36524"
  define m100 where "m100 = r400 mod 36524"
  define b where "b = min 3 q"
  define r100 where "r100 = r400 - b * 36524"
  define c where "c = r100 div 1461"
  define r4 where "r4 = r100 mod 1461"
  define p where "p = r4 div 365"
  define m1 where "m1 = r4 mod 365"
  define e where "e = min 3 p"
  have y: "YearFromDay d = 1601 + 400 * a + 100 * b + 4 * c + e"
    by (simp add: YearFromDay_def Let_def n_def a_def r400_def q_def b_def r100_def c_def
        r4_def p_def e_def)
  have n: "n = 146097 * a + r400" by (simp add: a_def r400_def)
  have r400: "0 \<le> r400" "r400 < 146097" by (simp_all add: r400_def)
  have q: "r400 = 36524 * q + m100" "0 \<le> m100" "m100 < 36524"
    by (simp_all add: q_def m100_def)
  have qb: "0 \<le> q" "q \<le> 4" using q r400 by linarith+
  have bq: "(q \<le> 3 \<and> b = q) \<or> (q = 4 \<and> b = 3)"
    using qb unfolding b_def by arith
  have b: "0 \<le> b" "b \<le> 3" using qb bq by linarith+
  have r100: "0 \<le> r100" "r100 \<le> 36524" "b < 3 \<longrightarrow> r100 < 36524"
    using q r400 bq unfolding r100_def by arith+
  have c: "r100 = 1461 * c + r4" "0 \<le> r4" "r4 < 1461"
    by (simp_all add: c_def r4_def)
  have cb: "0 \<le> c" "c \<le> 24" "c = 24 \<and> b < 3 \<longrightarrow> r4 < 1460"
    using c r100 by arith+
  have p: "r4 = 365 * p + m1" "0 \<le> m1" "m1 < 365"
    by (simp_all add: p_def m1_def)
  have pb: "0 \<le> p" "p \<le> 4" using p c by linarith+
  have ep: "(p \<le> 3 \<and> e = p) \<or> (p = 4 \<and> e = 3)"
    using pb unfolding e_def by arith
  have e: "0 \<le> e" "e \<le> 3" using pb ep by linarith+
  have D: "DayFromYear (YearFromDay d) =
      146097 * a + 36524 * b + 1461 * c + 365 * e - 134774"
    unfolding y using b cb(1,2) e by (rule DayFromYear_decomp)
  have L: "DaysInYear (YearFromDay d) = (if e = 3 \<and> (c < 24 \<or> b = 3) then 366 else 365)"
    unfolding y using b cb(1,2) e by (rule DaysInYear_decomp)
  have k: "d - DayFromYear (YearFromDay d) = r4 - 365 * e"
    unfolding D using n c(1) unfolding n_def r100_def by linarith
  have lo: "0 \<le> r4 - 365 * e"
    using p ep by arith
  have hi: "r4 - 365 * e < (if e = 3 \<and> (c < 24 \<or> b = 3) then 366 else 365)"
  proof (cases "p = 4")
    case True
    then have r: "r4 = 1460" "e = 3" using p c ep by linarith+
    then have "c < 24 \<or> b = 3" using cb b by arith
    then show ?thesis using r by simp
  next
    case False
    then have "e = p" using ep by linarith
    then have "r4 - 365 * e < 365" using p by linarith
    then show ?thesis by (simp split: if_splits)
  qed
  show ?thesis using k lo hi L by linarith
qed

lemma DaysInYear_pos: "365 \<le> DaysInYear y"
  by (simp add: DaysInYear_def)

lemma DayFromYear_mono:
  assumes "y \<le> y'" shows "DayFromYear y \<le> DayFromYear y'"
  using assms
proof (induction y' rule: int_ge_induct)
  case base
  show ?case by simp
next
  case (step i)
  then show ?case using DayFromYear_step [of i] DaysInYear_pos [of i] by linarith
qed

lemma YearFromDay_unique:
  assumes "DayFromYear y \<le> d" "d < DayFromYear y + DaysInYear y"
  shows "YearFromDay d = y"
proof (rule ccontr)
  let ?z = "YearFromDay d"
  assume ne: "?z \<noteq> y"
  have z: "DayFromYear ?z \<le> d" "d < DayFromYear (?z + 1)"
    using YearFromDay_bounds [of d] by (simp_all add: DayFromYear_step)
  have y: "d < DayFromYear (y + 1)" using assms by (simp add: DayFromYear_step)
  from ne consider "?z + 1 \<le> y" | "y + 1 \<le> ?z" by linarith
  then show False
  proof cases
    case 1
    from DayFromYear_mono [OF 1] z assms show False by linarith
  next
    case 2
    from DayFromYear_mono [OF 2] z y show False by linarith
  qed
qed

subsection \<open>Months and days\<close>

lemma leap_days_leap_year: "leap_days y = (if leap_year y then 1 else 0)"
  by (simp add: leap_days_def DaysInYear_def leap_year_def)

lemma DaysInYear_leap_days: "DaysInYear y = 365 + leap_days y"
  by (simp add: leap_days_def DaysInYear_def)

lemma leap_days_cases: "leap_days y = 0 \<or> leap_days y = 1"
  by (simp add: leap_days_def)

lemma month_index_cases:
  fixes m :: int
  assumes "0 \<le> m" "m \<le> 11"
  shows "m = 0 \<or> m = 1 \<or> m = 2 \<or> m = 3 \<or> m = 4 \<or> m = 5 \<or> m = 6 \<or> m = 7 \<or>
         m = 8 \<or> m = 9 \<or> m = 10 \<or> m = 11"
  using assms by presburger

lemma month_of_yday_in_month:
  assumes l: "l = 0 \<or> l = 1" and k: "0 \<le> k" "k < 365 + l"
  shows "in_month l k (month_of_yday l k)"
proof -
  have q0: "in_month l k 0" if "k < 31"
    using that k by (simp add: in_month_def month_start_def month_length_def)
  have q1: "in_month l k 1" if "\<not> k < 31" "k < 59 + l"
    using that by (simp add: in_month_def month_start_def month_length_def)
  have q2: "in_month l k 2" if "\<not> k < 59 + l" "k < 90 + l"
    using that by (simp add: in_month_def month_start_def month_length_def)
  have q3: "in_month l k 3" if "\<not> k < 90 + l" "k < 120 + l"
    using that by (simp add: in_month_def month_start_def month_length_def)
  have q4: "in_month l k 4" if "\<not> k < 120 + l" "k < 151 + l"
    using that by (simp add: in_month_def month_start_def month_length_def)
  have q5: "in_month l k 5" if "\<not> k < 151 + l" "k < 181 + l"
    using that by (simp add: in_month_def month_start_def month_length_def)
  have q6: "in_month l k 6" if "\<not> k < 181 + l" "k < 212 + l"
    using that by (simp add: in_month_def month_start_def month_length_def)
  have q7: "in_month l k 7" if "\<not> k < 212 + l" "k < 243 + l"
    using that by (simp add: in_month_def month_start_def month_length_def)
  have q8: "in_month l k 8" if "\<not> k < 243 + l" "k < 273 + l"
    using that by (simp add: in_month_def month_start_def month_length_def)
  have q9: "in_month l k 9" if "\<not> k < 273 + l" "k < 304 + l"
    using that by (simp add: in_month_def month_start_def month_length_def)
  have q10: "in_month l k 10" if "\<not> k < 304 + l" "k < 334 + l"
    using that by (simp add: in_month_def month_start_def month_length_def)
  have q11: "in_month l k 11" if "\<not> k < 334 + l"
    using that k by (simp add: in_month_def month_start_def month_length_def)
  have l0: "0 \<le> l" using l by auto
  consider (c0) "k < 31"
    | (c1) "\<not> k < 31" "k < 59 + l"
    | (c2) "\<not> k < 59 + l" "k < 90 + l"
    | (c3) "\<not> k < 90 + l" "k < 120 + l"
    | (c4) "\<not> k < 120 + l" "k < 151 + l"
    | (c5) "\<not> k < 151 + l" "k < 181 + l"
    | (c6) "\<not> k < 181 + l" "k < 212 + l"
    | (c7) "\<not> k < 212 + l" "k < 243 + l"
    | (c8) "\<not> k < 243 + l" "k < 273 + l"
    | (c9) "\<not> k < 273 + l" "k < 304 + l"
    | (c10) "\<not> k < 304 + l" "k < 334 + l"
    | (c11) "\<not> k < 334 + l"
    by blast
  then show ?thesis
  proof cases
    case c0
    then have "month_of_yday l k = 0" using l0 by (simp add: month_of_yday_def)
    then show ?thesis using c0 q0 by simp
  next
    case c1
    then have "month_of_yday l k = 1" using l0 by (simp add: month_of_yday_def)
    then show ?thesis using c1 q1 by simp
  next
    case c2
    then have "month_of_yday l k = 2" using l0 by (simp add: month_of_yday_def)
    then show ?thesis using c2 q2 by simp
  next
    case c3
    then have "month_of_yday l k = 3" using l0 by (simp add: month_of_yday_def)
    then show ?thesis using c3 q3 by simp
  next
    case c4
    then have "month_of_yday l k = 4" using l0 by (simp add: month_of_yday_def)
    then show ?thesis using c4 q4 by simp
  next
    case c5
    then have "month_of_yday l k = 5" using l0 by (simp add: month_of_yday_def)
    then show ?thesis using c5 q5 by simp
  next
    case c6
    then have "month_of_yday l k = 6" using l0 by (simp add: month_of_yday_def)
    then show ?thesis using c6 q6 by simp
  next
    case c7
    then have "month_of_yday l k = 7" using l0 by (simp add: month_of_yday_def)
    then show ?thesis using c7 q7 by simp
  next
    case c8
    then have "month_of_yday l k = 8" using l0 by (simp add: month_of_yday_def)
    then show ?thesis using c8 q8 by simp
  next
    case c9
    then have "month_of_yday l k = 9" using l0 by (simp add: month_of_yday_def)
    then show ?thesis using c9 q9 by simp
  next
    case c10
    then have "month_of_yday l k = 10" using l0 by (simp add: month_of_yday_def)
    then show ?thesis using c10 q10 by simp
  next
    case c11
    then have "month_of_yday l k = 11" using l0 by (simp add: month_of_yday_def)
    then show ?thesis using c11 q11 by simp
  qed
qed

lemma in_month_unique:
  assumes l: "l = 0 \<or> l = 1" and a: "in_month l k m" and b: "in_month l k m'"
  shows "m = m'"
proof -
  have mono: "month_start l i + month_length l i \<le> month_start l j"
    if "0 \<le> i" "i < j" "j \<le> 11" for i j
  proof -
    have i: "i = 0 \<or> i = 1 \<or> i = 2 \<or> i = 3 \<or> i = 4 \<or> i = 5 \<or> i = 6 \<or> i = 7 \<or>
         i = 8 \<or> i = 9 \<or> i = 10 \<or> i = 11"
      using that by (intro month_index_cases) auto
    have j: "j = 0 \<or> j = 1 \<or> j = 2 \<or> j = 3 \<or> j = 4 \<or> j = 5 \<or> j = 6 \<or> j = 7 \<or>
         j = 8 \<or> j = 9 \<or> j = 10 \<or> j = 11"
      using that by (intro month_index_cases) auto
    show ?thesis
      using i j that(2) l by (elim disjE) (simp_all add: month_start_def month_length_def)
  qed
  show ?thesis
  proof (rule ccontr)
    assume "m \<noteq> m'"
    then consider "m < m'" | "m' < m" by linarith
    then show False
    proof cases
      case 1
      then show False using mono [of m m'] a b by (simp add: in_month_def)
    next
      case 2
      then show False using mono [of m' m] a b by (simp add: in_month_def)
    qed
  qed
qed

lemma month_length_days_in_month:
  assumes "0 \<le> m" "m \<le> 11"
  shows "month_length (leap_days y) m = days_in_month y (m + 1)"
  using month_index_cases [OF assms]
  by (elim disjE) (simp_all add: month_length_def days_in_month_def leap_days_leap_year)

lemma in_month_yday_range:
  assumes l: "l = 0 \<or> l = 1" and a: "in_month l k m"
  shows "0 \<le> k \<and> k < 365 + l"
proof -
  have m: "0 \<le> m" "m \<le> 11" using a by (simp_all add: in_month_def)
  have "0 \<le> month_start l m \<and> month_start l m + month_length l m \<le> 365 + l"
    using month_index_cases [OF m] l
    by (elim disjE) (simp_all add: month_start_def month_length_def)
  then show ?thesis using a by (simp add: in_month_def)
qed

lemma DayWithinYear_range:
  "0 \<le> DayWithinYear t \<and> DayWithinYear t < 365 + InLeapYear t"
  using YearFromDay_bounds [of "Day t"]
  by (simp add: DayWithinYear_def InLeapYear_def YearFromTime_def DaysInYear_leap_days)

lemma InLeapYear_cases: "InLeapYear t = 0 \<or> InLeapYear t = 1"
  by (simp add: InLeapYear_def leap_days_cases)

lemma MonthFromTime_in_month: "in_month (InLeapYear t) (DayWithinYear t) (MonthFromTime t)"
  unfolding MonthFromTime_def
  using InLeapYear_cases [of t] DayWithinYear_range [of t]
  by (intro month_of_yday_in_month) auto

text \<open>The fields of every time value form a real calendar date.\<close>

lemma fields_real_date: "real_date (YearFromTime t) (MonthFromTime t + 1) (DateFromTime t)"
proof -
  let ?l = "InLeapYear t" and ?k = "DayWithinYear t" and ?m = "MonthFromTime t"
  have a: "in_month ?l ?k ?m" by (rule MonthFromTime_in_month)
  then have m: "0 \<le> ?m" "?m \<le> 11" by (simp_all add: in_month_def)
  have "month_length ?l ?m = days_in_month (YearFromTime t) (?m + 1)"
    unfolding InLeapYear_def by (rule month_length_days_in_month [OF m])
  then show ?thesis
    using a m by (simp add: real_date_def DateFromTime_def in_month_def)
qed

text \<open>The fields of any time within the day that \<open>MakeDay\<close> gives for a real date are that date.\<close>

lemma fields_of_MakeDay:
  assumes r: "real_date y (m + 1) d" and t: "Day t = MakeDay y m d"
  shows "YearFromTime t = y \<and> MonthFromTime t = m \<and> DateFromTime t = d"
proof -
  let ?l = "leap_days y"
  let ?k = "month_start ?l m + d - 1"
  have m: "0 \<le> m" "m \<le> 11" and d: "1 \<le> d" "d \<le> days_in_month y (m + 1)"
    using r by (simp_all add: real_date_def)
  have dm: "m div 12 = 0" "m mod 12 = m" using m by simp_all
  have day: "Day t = DayFromYear y + ?k" unfolding t MakeDay_def Let_def dm by simp
  have im: "in_month ?l ?k m"
    using m d month_length_days_in_month [OF m, of y] by (simp add: in_month_def)
  have k: "0 \<le> ?k" "?k < 365 + ?l"
    using in_month_yday_range [OF leap_days_cases im] by simp_all
  have y: "YearFromTime t = y"
    unfolding YearFromTime_def using k day
    by (intro YearFromDay_unique) (simp_all add: DaysInYear_leap_days)
  have l: "InLeapYear t = ?l" by (simp add: InLeapYear_def y)
  have w: "DayWithinYear t = ?k" by (simp add: DayWithinYear_def y day)
  have mo: "MonthFromTime t = m"
    using MonthFromTime_in_month [of t] im unfolding l w
    by (rule in_month_unique [OF leap_days_cases])
  have "DateFromTime t = d" by (simp add: DateFromTime_def l w mo)
  with y mo show ?thesis by simp
qed

section \<open>Dates\<close>

subsection \<open>Decimal digits\<close>

lemma ToInteger_of_int [simp]: "ToInteger (of_int i) = i"
  by (simp add: ToInteger_def)

lemma digit_not_space: "is_digit c \<Longrightarrow> \<not> is_space c"
  using alnum_not_space [of c] by (simp add: is_alnum_def)

lemma digit_not_sign: "is_digit c \<Longrightarrow> c \<noteq> CHR ''-'' \<and> c \<noteq> CHR ''+''"
  using alnum_not_sign [of c] by (simp add: is_alnum_def)

lemma of_char_x: "(of_char CHR ''x'' :: nat) = 120" "(of_char CHR ''X'' :: nat) = 88"
  by simp_all

lemma digit_not_x:
  assumes "is_digit c" shows "c \<noteq> CHR ''x'' \<and> c \<noteq> CHR ''X''"
proof -
  have "(of_char c :: nat) \<noteq> 120 \<and> (of_char c :: nat) \<noteq> 88"
    using assms unfolding is_digit_def by arith
  then show ?thesis using of_char_x by metis
qed

lemma digit_value_digit: "is_digit c \<Longrightarrow> digit_value c = Some ((of_char c :: nat) - 48)"
  by (simp add: digit_value_def)

lemma digit_radix_10: "is_digit c \<Longrightarrow> is_radix_digit 10 c"
  unfolding is_radix_digit_def is_digit_def digit_value_def by (simp add: is_digit_def) arith

lemma strip_hex_digits:
  assumes "list_all is_digit g" shows "strip_hex g = None"
proof (cases g)
  case Nil
  then show ?thesis by (simp add: strip_hex_def)
next
  case (Cons a r)
  show ?thesis
  proof (cases r)
    case Nil
    then show ?thesis using Cons by (simp add: strip_hex_def)
  next
    case (Cons b r')
    then have "is_digit b" using assms \<open>g = a # r\<close> by simp
    then show ?thesis using digit_not_x [of b] Cons \<open>g = a # r\<close> by (simp add: strip_hex_def)
  qed
qed

lemma parseInt_digits:
  assumes "g \<noteq> []" "list_all is_digit g"
  shows "parseInt g None = Fin (of_int (decimal g))"
proof -
  obtain a r where g: "g = a # r" using assms(1) by (cases g) auto
  have a: "is_digit a" using assms(2) g by simp
  have 1: "dropWhile is_space g = g" using digit_not_space [OF a] by (simp add: g)
  have 2: "a \<noteq> CHR ''-''" "a \<noteq> CHR ''+''" using digit_not_sign [OF a] by simp_all
  have 3: "takeWhile (is_radix_digit 10) g = g"
    using assms(2) by (simp add: list_all_iff digit_radix_10)
  have 4: "strip_hex g = None" by (rule strip_hex_digits [OF assms(2)])
  have 5: "(case g of c # _ \<Rightarrow> c = CHR ''-'' | [] \<Rightarrow> False) = False"
    using 2 by (simp add: g)
  have 6: "(case g of c # r \<Rightarrow> if c = CHR ''-'' \<or> c = CHR ''+'' then r else g | [] \<Rightarrow> g) = g"
    using 2 by (simp add: g)
  show ?thesis
    unfolding parseInt_def Let_def 1 5 6 by (simp add: 3 4 assms(1) decimal_def)
qed


lemma dv_less: "is_digit c \<Longrightarrow> dv c < 10"
  unfolding dv_def is_digit_def by arith

lemma digit_char_dv: "is_digit c \<Longrightarrow> digit_char (dv c) = c"
proof -
  assume c: "is_digit c"
  then have "48 + dv c = (of_char c :: nat)" unfolding dv_def is_digit_def by arith
  then show ?thesis using dv_less [OF c] by (simp add: digit_char_def)
qed

lemma the_digit_value: "is_digit c \<Longrightarrow> the (digit_value c) = dv c"
  by (simp add: digit_value_def dv_def)

lemma decimal_two:
  assumes "is_digit a" "is_digit b"
  shows "decimal [a, b] = int (dv a * 10 + dv b)"
  using assms by (simp add: decimal_def digits_value_def the_digit_value)

lemma decimal_four:
  assumes "is_digit a" "is_digit b" "is_digit c" "is_digit d"
  shows "decimal [a, b, c, d] = int (((dv a * 10 + dv b) * 10 + dv c) * 10 + dv d)"
  using assms by (simp add: decimal_def digits_value_def the_digit_value)

lemma dv_zero: "dv CHR ''0'' = 0" and dv_one: "dv CHR ''1'' = 1" and dv_two: "dv CHR ''2'' = 2"
  and dv_three: "dv CHR ''3'' = 3"
  by (simp_all add: dv_def)

lemma is_digit_literals:
  "is_digit CHR ''0''" "is_digit CHR ''1''" "is_digit CHR ''2''" "is_digit CHR ''3''"
  by (simp_all add: is_digit_def)

lemma char_between_digit:
  assumes "char_between CHR ''0'' hi c" "(of_char hi :: nat) \<le> 57"
  shows "is_digit c"
  using assms by (simp add: char_between_def is_digit_def)

lemma char_between_dv:
  assumes "char_between lo hi c" "is_digit lo"
  shows "dv lo \<le> dv c \<and> dv c \<le> dv hi"
  using assms unfolding char_between_def dv_def is_digit_def by arith

lemma month_group_value:
  assumes "month_group a b"
  shows "is_digit a \<and> is_digit b \<and> 1 \<le> decimal [a, b] \<and> decimal [a, b] \<le> 12"
proof -
  have v: "dv CHR ''9'' = 9" by (simp add: dv_def)
  from assms consider "a = CHR ''0''" "char_between CHR ''1'' CHR ''9'' b"
    | "a = CHR ''1''" "char_between CHR ''0'' CHR ''2'' b"
    by (auto simp: month_group_def)
  then show ?thesis
  proof cases
    case 1
    have b: "is_digit b" using 1(2) by (simp add: char_between_def is_digit_def)
    have "1 \<le> dv b \<and> dv b \<le> 9"
      using char_between_dv [OF 1(2) is_digit_literals(2)] by (simp add: dv_one v)
    then show ?thesis using 1(1) b by (simp add: decimal_two is_digit_literals dv_zero)
  next
    case 2
    have b: "is_digit b" using 2(2) by (simp add: char_between_def is_digit_def)
    have "dv b \<le> 2"
      using char_between_dv [OF 2(2) is_digit_literals(1)] by (simp add: dv_two)
    then show ?thesis using 2(1) b by (simp add: decimal_two is_digit_literals dv_one)
  qed
qed

lemma day_group_value:
  assumes "day_group a b"
  shows "is_digit a \<and> is_digit b \<and> 1 \<le> decimal [a, b] \<and> decimal [a, b] \<le> 31"
proof -
  have v: "dv CHR ''9'' = 9" by (simp add: dv_def)
  from assms consider "a = CHR ''0''" "char_between CHR ''1'' CHR ''9'' b"
    | "a = CHR ''1''" "is_digit b" | "a = CHR ''2''" "is_digit b"
    | "a = CHR ''3''" "char_between CHR ''0'' CHR ''1'' b"
    by (auto simp: day_group_def)
  then show ?thesis
  proof cases
    case 1
    have b: "is_digit b" using 1(2) by (simp add: char_between_def is_digit_def)
    have "1 \<le> dv b \<and> dv b \<le> 9"
      using char_between_dv [OF 1(2) is_digit_literals(2)] by (simp add: dv_one v)
    then show ?thesis using 1(1) b by (simp add: decimal_two is_digit_literals dv_zero)
  next
    case 2
    then show ?thesis using dv_less [OF 2(2)]
      by (simp add: decimal_two is_digit_literals dv_one)
  next
    case 3
    then show ?thesis using dv_less [OF 3(2)]
      by (simp add: decimal_two is_digit_literals dv_two)
  next
    case 4
    have b: "is_digit b" using 4(2) by (simp add: char_between_def is_digit_def)
    have "dv b \<le> 1"
      using char_between_dv [OF 4(2) is_digit_literals(1)] by (simp add: dv_one)
    then show ?thesis using 4(1) b by (simp add: decimal_two is_digit_literals dv_three)
  qed
qed

lemma length_ten:
  assumes "length s = 10"
  obtains c0 c1 c2 c3 c4 c5 c6 c7 c8 c9 where "s = [c0, c1, c2, c3, c4, c5, c6, c7, c8, c9]"
proof -
  have "length s = Suc (Suc (Suc (Suc (Suc (Suc (Suc (Suc (Suc (Suc 0)))))))))"
    using assms by simp
  then show ?thesis using that by (auto simp: length_Suc_conv)
qed

lemma ISO_REGEX_match_parts:
  assumes "ISO_REGEX_match s = Some (g1, g2, g3)"
  obtains y1 y2 y3 y4 m1 m2 d1 d2 where
    "s = [y1, y2, y3, y4, CHR ''-'', m1, m2, CHR ''-'', d1, d2]"
    "g1 = [y1, y2, y3, y4]" "g2 = [m1, m2]" "g3 = [d1, d2]"
    "is_digit y1" "is_digit y2" "is_digit y3" "is_digit y4"
    "month_group m1 m2" "day_group d1 d2"
proof -
  from assms have l: "length s = 10"
    by (simp add: ISO_REGEX_match_def split: if_splits)
  then obtain c0 c1 c2 c3 c4 c5 c6 c7 c8 c9
    where s: "s = [c0, c1, c2, c3, c4, c5, c6, c7, c8, c9]"
    by (rule length_ten)
  show ?thesis
    using assms that [of c0 c1 c2 c3 c5 c6 c8 c9] unfolding s
    by (simp add: ISO_REGEX_match_def split: if_splits)
qed

subsection \<open>Building and reading dates\<close>

lemma Day_of_days [simp]: "Day (n * msPerDay) = n"
  by (simp add: Day_def msPerDay_def)

lemma date_field_Some [simp]: "date_field f (Some t) = Fin (of_int (f t))"
  by (simp add: date_field_def)

lemma date_field_None [simp]: "date_field f None = NaN"
  by (simp add: date_field_def)

lemma ToInteger_1900 [simp]: "ToInteger (1900 + of_int i) = 1900 + i"
proof -
  have "ToInteger (of_int (1900 + i)) = 1900 + i" by (rule ToInteger_of_int)
  then show ?thesis by simp
qed

lemma MakeFullYear_int:
  "MakeFullYear (Fin (of_int y)) = Fin (of_int (if 0 \<le> y \<and> y \<le> 99 then 1900 + y else y))"
  by simp

lemma MakeDay_bounds:
  assumes "real_date y (m + 1) d"
  shows "DayFromYear y \<le> MakeDay y m d \<and> MakeDay y m d < DayFromYear (y + 1)"
proof -
  let ?l = "leap_days y"
  have m: "0 \<le> m" "m \<le> 11" and d: "1 \<le> d" "d \<le> days_in_month y (m + 1)"
    using assms by (simp_all add: real_date_def)
  have dm: "m div 12 = 0" "m mod 12 = m" using m by simp_all
  have im: "in_month ?l (month_start ?l m + d - 1) m"
    using m d month_length_days_in_month [OF m, of y] by (simp add: in_month_def)
  from in_month_yday_range [OF leap_days_cases im]
  show ?thesis
    unfolding MakeDay_def Let_def dm by (simp add: DayFromYear_step DaysInYear_leap_days)
qed

lemma DayFromYear_100: "DayFromYear 100 = - 683003"
  by (simp add: DayFromYear_def)

lemma DayFromYear_10000: "DayFromYear 10000 = 2932897"
  by (simp add: DayFromYear_def)

lemma MakeDay_clip:
  assumes "real_date y (m + 1) d" "100 \<le> y" "y \<le> 9999"
  shows "TimeClip (MakeDay y m d * msPerDay) = Some (MakeDay y m d * msPerDay)"
proof -
  have "DayFromYear 100 \<le> DayFromYear y" "DayFromYear (y + 1) \<le> DayFromYear 10000"
    using assms(2,3) by (intro DayFromYear_mono; simp)+
  then have "- 683003 \<le> MakeDay y m d" "MakeDay y m d < 2932897"
    using MakeDay_bounds [OF assms(1)] by (simp_all add: DayFromYear_100 DayFromYear_10000)
  then show ?thesis by (simp add: TimeClip_def msPerDay_def)
qed

text \<open>\<^verbatim>\<open>fromDate\<close> on a valid date, by its local fields.\<close>

lemma fromDate_Some:
  "fromDate tz (Date (Some t)) =
     (let lt = LocalTime tz t; y = YearFromTime lt;
          day = MakeDay (if 0 \<le> y \<and> y \<le> 99 then 1900 + y else y) (MonthFromTime lt)
                  (DateFromTime lt)
      in if \<bar>day * msPerDay\<bar> \<le> 8640000000000000 then Fin (of_int day) else NaN)"
proof -
  have "\<lfloor>(of_int (day * msPerDay) :: real) / 86400000\<rfloor> = day" for day
    by (simp add: msPerDay_def)
  then show ?thesis
    by (simp add: fromDate_def getFullYear_def getMonth_def getDate_def Date_UTC_def Let_def
        TimeClip_def MS_PER_DAY_def)
qed

lemma fromDate_None: "fromDate tz (Date None) = NaN"
  by (simp add: fromDate_def getFullYear_def getMonth_def getDate_def Date_UTC_def
      MS_PER_DAY_def)

lemma num_eq_Fin [simp]: "num_eq a (Fin x) = (a = Fin x)"
  by (auto simp: num_eq_def)

lemma CivilDate_new_iso:
  assumes "ISO_REGEX_match s = Some (g1, g2, g3)"
  shows "CivilDate_new h (StringArg s) =
     (let date = Date_of_fields (zone h) (Fin (of_int (decimal g1)))
                   (Fin (of_int (decimal g2 - 1))) (Fin (of_int (decimal g3)))
      in if getFullYear (zone h) date = Fin (of_int (decimal g1)) \<and>
            getMonth (zone h) date = Fin (of_int (decimal g2 - 1)) \<and>
            getDate (zone h) date = Fin (of_int (decimal g3))
         then Inr \<lparr>value = fromDate (zone h) date\<rparr>
         else Inl (Error ''Invalid date''))"
proof -
  from assms obtain y1 y2 y3 y4 m1 m2 d1 d2 where
    g: "g1 = [y1, y2, y3, y4]" "g2 = [m1, m2]" "g3 = [d1, d2]" and
    dg: "is_digit y1" "is_digit y2" "is_digit y3" "is_digit y4"
      "month_group m1 m2" "day_group d1 d2"
    by (rule ISO_REGEX_match_parts)
  have p1: "parseInt g1 None = Fin (of_int (decimal g1))"
    using dg by (intro parseInt_digits) (simp_all add: g)
  have p2: "parseInt g2 None = Fin (of_int (decimal g2))"
    using month_group_value [OF dg(5)] by (intro parseInt_digits) (simp_all add: g)
  have p3: "parseInt g3 None = Fin (of_int (decimal g3))"
    using day_group_value [OF dg(6)] by (intro parseInt_digits) (simp_all add: g)
  show ?thesis
    by (simp add: CivilDate_new_def assms p1 p2 p3 num_minus_def Let_def)
qed

lemma Date_of_fields_int:
  "Date_of_fields tz (Fin (of_int y)) (Fin (of_int m)) (Fin (of_int d)) =
     Date (TimeClip (UTC tz (MakeDay (if 0 \<le> y \<and> y \<le> 99 then 1900 + y else y) m d * msPerDay)))"
  by (simp add: Date_of_fields_def)

text \<open>A triple that is not a real date is never the fields of a date.\<close>

lemma CivilDate_new_iso_invalid:
  assumes "ISO_REGEX_match s = Some (g1, g2, g3)"
    and "\<not> real_date (decimal g1) (decimal g2) (decimal g3)"
  shows "CivilDate_new h (StringArg s) = Inl (Error ''Invalid date'')"
proof -
  let ?date = "Date_of_fields (zone h) (Fin (of_int (decimal g1)))
                   (Fin (of_int (decimal g2 - 1))) (Fin (of_int (decimal g3)))"
  have "\<not> (getFullYear (zone h) ?date = Fin (of_int (decimal g1)) \<and>
            getMonth (zone h) ?date = Fin (of_int (decimal g2 - 1)) \<and>
            getDate (zone h) ?date = Fin (of_int (decimal g3)))"
  proof (cases "time_value ?date")
    case None
    then show ?thesis by (simp add: getFullYear_def)
  next
    case (Some t)
    let ?lt = "LocalTime (zone h) t"
    have "real_date (YearFromTime ?lt) (MonthFromTime ?lt + 1) (DateFromTime ?lt)"
      by (rule fields_real_date)
    then show ?thesis
      using assms(2) Some
      by (auto simp add: getFullYear_def getMonth_def getDate_def simp del: of_int_diff)
  qed
  then show ?thesis by (simp add: CivilDate_new_iso [OF assms(1)] Let_def del: of_int_diff)
qed

text \<open>A real date from the year 100 on is accepted where the zone keeps its local midnight.\<close>

lemma local_fields_kept:
  assumes r: "real_date y (m + 1) d" and k: "keeps_local_date tz (MakeDay y m d * msPerDay)"
    and y: "100 \<le> y"
  shows "\<exists>u. Date_of_fields tz (Fin (of_int y)) (Fin (of_int m)) (Fin (of_int d)) = Date (Some u) \<and>
             YearFromTime (LocalTime tz u) = y \<and> MonthFromTime (LocalTime tz u) = m \<and>
             DateFromTime (LocalTime tz u) = d"
proof -
  from k obtain u where u: "TimeClip (UTC tz (MakeDay y m d * msPerDay)) = Some u"
    and day: "Day (LocalTime tz u) = MakeDay y m d"
    by (auto simp: keeps_local_date_def split: option.splits)
  have "Date_of_fields tz (Fin (of_int y)) (Fin (of_int m)) (Fin (of_int d)) = Date (Some u)"
    using y u by (simp add: Date_of_fields_int)
  then show ?thesis using fields_of_MakeDay [OF r day] by simp
qed

lemma CivilDate_new_iso_valid:
  assumes m: "ISO_REGEX_match s = Some (g1, g2, g3)"
    and r: "real_date (decimal g1) (decimal g2) (decimal g3)"
    and y: "100 \<le> decimal g1"
    and k: "keeps_local_date (zone h) (MakeDay (decimal g1) (decimal g2 - 1) (decimal g3) * msPerDay)"
  shows "CivilDate_new h (StringArg s) =
         Inr \<lparr>value = Fin (of_int (MakeDay (decimal g1) (decimal g2 - 1) (decimal g3)))\<rparr>"
proof -
  let ?Y = "decimal g1" and ?M = "decimal g2 - 1" and ?D = "decimal g3"
  from m obtain y1 y2 y3 y4 where g1: "g1 = [y1, y2, y3, y4]"
    and dg: "is_digit y1" "is_digit y2" "is_digit y3" "is_digit y4"
    by (rule ISO_REGEX_match_parts)
  have "((dv y1 * 10 + dv y2) * 10 + dv y3) * 10 + dv y4 \<le> 9999"
    using dv_less [OF dg(1)] dv_less [OF dg(2)] dv_less [OF dg(3)] dv_less [OF dg(4)]
    by simp
  then have hi: "?Y \<le> 9999"
    unfolding g1 decimal_four [OF dg] by linarith
  have r': "real_date ?Y (?M + 1) ?D" using r by simp
  from local_fields_kept [OF r' k y] obtain u where
    u: "Date_of_fields (zone h) (Fin (of_int ?Y)) (Fin (of_int ?M)) (Fin (of_int ?D)) = Date (Some u)"
    and f: "YearFromTime (LocalTime (zone h) u) = ?Y" "MonthFromTime (LocalTime (zone h) u) = ?M"
      "DateFromTime (LocalTime (zone h) u) = ?D"
    by blast
  have c: "\<bar>MakeDay ?Y ?M ?D * msPerDay\<bar> \<le> 8640000000000000"
    using MakeDay_clip [OF r' y hi] by (simp add: TimeClip_def split: if_splits)
  have "fromDate (zone h) (Date (Some u)) = Fin (of_int (MakeDay ?Y ?M ?D))"
    using y c by (simp add: fromDate_Some Let_def f)
  then show ?thesis
    by (simp add: CivilDate_new_iso [OF m] Let_def u getFullYear_def getMonth_def getDate_def f
        del: of_int_diff)
qed

subsection \<open>Evaluating the calendar on literals\<close>

lemma keeps_local_date_fixed:
  assumes "\<bar>lt - off\<bar> \<le> 8640000000000000"
  shows "keeps_local_date (fixed_zone off) lt"
  using assms by (simp add: keeps_local_date_def fixed_zone_def UTC_def LocalTime_def TimeClip_def)

lemma central_zone: "zone central_host = fixed_zone (- 21600000)"
  by (simp add: central_host_def)

subsection \<open>Rounding to a double, and the product in \<^verbatim>\<open>toDate\<close>\<close>

lemma bit_length_bounds:
  "0 < n \<Longrightarrow> 2 ^ (bit_length n - 1) \<le> n \<and> n < 2 ^ bit_length n"
proof (induction n rule: bit_length.induct)
  case (1 n)
  show ?case
  proof (cases "n div 2 \<le> 0")
    case True
    then have n: "n = 1" using "1.prems" by linarith
    have "bit_length 1 = Suc (bit_length 0)" by (subst bit_length.simps) simp
    also have "bit_length 0 = 0" by (subst bit_length.simps) simp
    finally show ?thesis by (simp add: n)
  next
    case False
    then have h: "0 < n div 2" by simp
    have ih: "2 ^ (bit_length (n div 2) - 1) \<le> n div 2 \<and> n div 2 < 2 ^ bit_length (n div 2)"
      using "1.IH" "1.prems" h by simp
    have b: "bit_length n = Suc (bit_length (n div 2))"
      using "1.prems" by (subst bit_length.simps) simp
    have p: "0 < bit_length (n div 2)"
      using h by (subst bit_length.simps) simp
    then have e: "(2::int) ^ bit_length (n div 2) = 2 * 2 ^ (bit_length (n div 2) - 1)"
      by (cases "bit_length (n div 2)") simp_all
    have "2 * (n div 2) \<le> n" "n < 2 * (n div 2) + 2" by linarith+
    then show ?thesis using ih e unfolding b by simp
  qed
qed

lemma round_half_even_int [simp]: "round_half_even (of_int j) = j"
  by (simp add: round_half_even_def)

lemma to_double_int:
  assumes "\<bar>i\<bar> < 2 ^ 53"
  shows "to_double (of_int i) = Fin (of_int i)"
proof (cases "i = 0")
  case True
  then show ?thesis by (simp add: to_double_def)
next
  case False
  define n where "n = \<bar>i\<bar>"
  define k where "k = bit_length n"
  define m where "m = 53 - k"
  have n: "0 < n" "n < 2 ^ 53" using False assms by (simp_all add: n_def)
  have bb: "2 ^ (k - 1) \<le> n" "n < 2 ^ k"
    using bit_length_bounds [OF n(1)] by (simp_all add: k_def)
  have k1: "1 \<le> k" unfolding k_def using n(1) by (subst bit_length.simps) simp
  have "(2::int) ^ (k - 1) < 2 ^ 53" using bb(1) n(2) by linarith
  then have "k - 1 < 53" by (simp only: power_strict_increasing_iff)
  then have k53: "k \<le> 53" by simp
  have a: "\<bar>(of_int i :: real)\<bar> = of_int n" by (simp add: n_def)
  have a1: "(1::real) \<le> of_int n" using n(1) by simp
  have fl: "\<lfloor>(of_int n :: real)\<rfloor> = n" by (rule floor_of_int)
  have ex: "binary_exponent (of_int n) = int k - 1"
    unfolding binary_exponent_def fl k_def using a1 by (simp only: if_True)
  have e: "max (int k - 1) (- 1022) = int k - 1" using k1 by simp
  have u: "pow2 (int k - 1 - 52) = 1 / 2 ^ m"
  proof (cases "k = 53")
    case True
    then show ?thesis by (simp add: pow2_def m_def)
  next
    case False
    then have "int k - 1 - 52 < 0" "nat (- (int k - 1 - 52)) = m"
      using k53 by (simp_all add: m_def)
    then show ?thesis by (simp add: pow2_def)
  qed
  have q: "(of_int n :: real) / (1 / 2 ^ m) = of_int (n * 2 ^ m)" by simp
  have r: "of_int (round_half_even ((of_int n :: real) / (1 / 2 ^ m))) * (1 / 2 ^ m) = (of_int n :: real)"
    unfolding q round_half_even_int by simp
  have "(of_int n :: real) < 2 ^ 53" using n(2) by (metis of_int_less_numeral_power_cancel_iff)
  also have "(2::real) ^ 53 \<le> 2 ^ 1024" by (rule power_increasing) simp_all
  finally have big: "\<not> pow2 1024 \<le> (of_int n :: real)" by (simp add: pow2_def)
  have nz: "(of_int i :: real) \<noteq> 0" using False by simp
  have s: "(if 0 < (of_int i :: real) then (of_int n :: real) else - of_int n) = of_int i"
    by (simp add: n_def)
  show ?thesis
    unfolding to_double_def Let_def a ex e u r using nz big s by simp
qed

lemma bit_length_pos: "0 < n \<Longrightarrow> 0 < bit_length n"
  by (subst bit_length.simps) simp

lemma pow2_nat: "pow2 (int k) = 2 ^ k"
  by (simp add: pow2_def)

lemma pow2_neg_nat: "pow2 (- int k) = 1 / 2 ^ k"
  by (cases "k = 0") (simp_all add: pow2_def)

lemma of_int_le_power2:
  assumes "j \<le> 2 ^ k" shows "(of_int j :: real) \<le> 2 ^ k"
proof -
  have "(of_int j :: real) \<le> of_int (2 ^ k)" using assms by (simp only: of_int_le_iff)
  also have "(of_int (2 ^ k) :: real) = 2 ^ k" by simp
  finally show ?thesis .
qed

lemma power2_le_of_int:
  assumes "2 ^ k \<le> j" shows "(2::real) ^ k \<le> of_int j"
proof -
  have "(of_int (2 ^ k) :: real) \<le> of_int j" using assms by (simp only: of_int_le_iff)
  moreover have "(of_int (2 ^ k) :: real) = 2 ^ k" by simp
  ultimately show ?thesis by simp
qed

lemma binary_exponent_bounds:
  assumes "0 < a"
  shows "pow2 (binary_exponent a) \<le> a \<and> a < pow2 (binary_exponent a + 1)"
proof (cases "1 \<le> a")
  case True
  define n where "n = \<lfloor>a\<rfloor>"
  define k where "k = bit_length n"
  have n: "0 < n" using True by (simp add: n_def)
  have bb: "2 ^ (k - 1) \<le> n" "n < 2 ^ k"
    using bit_length_bounds [OF n] by (simp_all add: k_def)
  have k: "0 < k" unfolding k_def by (rule bit_length_pos [OF n])
  have e: "binary_exponent a = int (k - 1)"
    using True k by (simp add: binary_exponent_def n_def k_def)
  have s: "int (k - 1) + 1 = int k" using k by simp
  have "(2::real) ^ (k - 1) \<le> of_int n" by (rule power2_le_of_int [OF bb(1)])
  moreover have "(of_int n :: real) \<le> a" by (simp add: n_def)
  ultimately have lo: "(2::real) ^ (k - 1) \<le> a" by linarith
  have "n + 1 \<le> 2 ^ k" using bb(2) by simp
  then have "(of_int (n + 1) :: real) \<le> 2 ^ k" by (rule of_int_le_power2)
  moreover have "a < of_int (n + 1)" unfolding n_def by linarith
  ultimately have hi: "a < (2::real) ^ k" by linarith
  show ?thesis unfolding e s pow2_nat using lo hi by simp
next
  case False
  define c where "c = \<lceil>1 / a\<rceil>"
  define k where "k = bit_length (c - 1)"
  have inv: "1 < 1 / a" using assms False by simp
  then have c: "0 < c - 1" unfolding c_def by linarith
  have bb: "2 ^ (k - 1) \<le> c - 1" "c - 1 < 2 ^ k"
    using bit_length_bounds [OF c] by (simp_all add: k_def)
  have k: "0 < k" unfolding k_def by (rule bit_length_pos [OF c])
  have e: "binary_exponent a = - int k"
    using False by (simp add: binary_exponent_def c_def k_def)
  have s: "- int k + 1 = - int (k - 1)" using k by simp
  have "c \<le> 2 ^ k" using bb(2) by simp
  then have "(of_int c :: real) \<le> 2 ^ k" by (rule of_int_le_power2)
  moreover have "1 / a \<le> of_int c" unfolding c_def by linarith
  ultimately have "1 / a \<le> 2 ^ k" by linarith
  then have lo: "1 / 2 ^ k \<le> a"
    using assms by (simp add: field_simps)
  have "(2::real) ^ (k - 1) \<le> of_int (c - 1)" by (rule power2_le_of_int [OF bb(1)])
  moreover have "of_int (c - 1) < 1 / a" unfolding c_def by linarith
  ultimately have "(2::real) ^ (k - 1) < 1 / a" by linarith
  then have hi: "a < 1 / 2 ^ (k - 1)"
    using assms by (simp add: field_simps)
  show ?thesis unfolding e s pow2_neg_nat using lo hi by simp
qed

text \<open>A double holds every integer below \<open>2^53\<close>: the product of such integers is exact.\<close>

lemma toDate_Days_Fin:
  "toDate (Days (Fin q)) = Inr (Date_of_value (to_double (q * 86400000)))"
  by (simp add: toDate_def MS_PER_DAY_def)

lemma toDate_Days_int_product:
  assumes "\<bar>i\<bar> \<le> 104249991"
  shows "toDate (Days (Fin (of_int i))) =
         Inr (Date (if \<bar>i\<bar> \<le> 100000000 then Some (i * 86400000) else None))"
proof -
  define j where "j = i * 86400000"
  have "\<bar>j\<bar> = \<bar>i\<bar> * 86400000" by (simp add: j_def abs_mult)
  then have b: "\<bar>j\<bar> < 2 ^ 53" "(\<bar>j\<bar> \<le> 8640000000000000) = (\<bar>i\<bar> \<le> 100000000)"
    using assms by simp_all
  have p: "(of_int i :: real) * 86400000 = of_int j" by (simp add: j_def)
  have "(\<bar>(of_int j :: real)\<bar> \<le> 8640000000000000) = (\<bar>j\<bar> \<le> 8640000000000000)"
    by (metis of_int_abs of_int_le_numeral_iff)
  then have c: "(\<bar>(of_int j :: real)\<bar> \<le> 8640000000000000) = (\<bar>i\<bar> \<le> 100000000)"
    using b(2) by simp
  have "toDate (Days (Fin (of_int i))) = Inr (Date_of_value (Fin (of_int j)))"
    unfolding toDate_Days_Fin p to_double_int [OF b(1)] ..
  also have "Date_of_value (Fin (of_int j)) =
      Date (if \<bar>i\<bar> \<le> 100000000 then Some j else None)"
    using c by (simp del: of_int_abs)
  finally show ?thesis by (simp add: j_def)
qed

lemma toDate_Days_int:
  assumes "\<bar>i\<bar> \<le> 100000000"
  shows "toDate (Days (Fin (of_int i))) = Inr (Date (Some (i * 86400000)))"
proof -
  have "\<bar>i\<bar> \<le> 104249991" using assms by simp
  from toDate_Days_int_product [OF this] assms show ?thesis by simp
qed

subsection \<open>The constructor on numbers and codes\<close>

lemma CivilDate_new_number:
  "CivilDate_new h (NumberArg (Fin q)) =
     (if 1296 \<le> q \<and> q \<le> 46655 then Inr \<lparr>value = Fin q\<rparr>
      else Inl (Error ''Days out of range''))"
  by (auto simp: CivilDate_new_def MIN_DAYS_def MAX_DAYS_def num_greater_def)

lemma CivilDate_new_code:
  assumes "ISO_REGEX_match s = None"
  shows "CivilDate_new h (StringArg s) =
     (if CODE_REGEX_test s then Inr \<lparr>value = Fin (of_nat (digits_value 36 s))\<rparr>
      else Inl (Error ''Invalid civil-date code''))"
  by (simp add: CivilDate_new_def assms decode_char)

lemmas iso_eval =
  ISO_REGEX_match_def is_digit_def month_group_def day_group_def char_between_def
  decimal_def digits_value_def digit_value_def

lemmas real_date_eval = real_date_def days_in_month_def leap_year_def

lemma iso_match_examples:
  "ISO_REGEX_match ''2025-12-23'' = Some (''2025'', ''12'', ''23'')"
  "ISO_REGEX_match ''2025-02-30'' = Some (''2025'', ''02'', ''30'')"
  "ISO_REGEX_match ''2024-02-29'' = Some (''2024'', ''02'', ''29'')"
  "ISO_REGEX_match ''2023-02-29'' = Some (''2023'', ''02'', ''29'')"
  "ISO_REGEX_match ''2011-12-30'' = Some (''2011'', ''12'', ''30'')"
  "ISO_REGEX_match ''1970-01-02'' = Some (''1970'', ''01'', ''02'')"
  "ISO_REGEX_match ''invalid'' = None"
  "ISO_REGEX_match ''2025/01/01'' = None"
  "ISO_REGEX_match ''000'' = None"
  by (simp_all add: iso_eval)

lemma decimal_examples:
  "decimal ''2025'' = 2025" "decimal ''2024'' = 2024" "decimal ''2023'' = 2023"
  "decimal ''2011'' = 2011" "decimal ''1970'' = 1970"
  "decimal ''01'' = 1" "decimal ''02'' = 2" "decimal ''12'' = 12"
  "decimal ''23'' = 23" "decimal ''29'' = 29" "decimal ''30'' = 30"
  by (simp_all add: iso_eval)

lemmas MakeDay_eval = MakeDay_def DayFromYear_def month_start_def leap_days_def DaysInYear_def

lemma MakeDay_examples:
  "MakeDay 2025 11 23 = 20445" "MakeDay 2024 1 29 = 19782" "MakeDay 2011 11 30 = 15338"
  "MakeDay 1970 0 2 = 1" "MakeDay 1973 6 20 = 1296" "MakeDay 2011 11 31 = 15339"
  "MakeDay 2023 2 14 = 19430" "MakeDay 1969 11 31 = - 1"
  by (simp_all add: MakeDay_eval)

lemma real_date_examples:
  "real_date 2025 12 23" "real_date 2024 2 29" "real_date 2011 12 30" "real_date 1970 1 2"
  "real_date 1973 7 20" "real_date 2011 12 31" "real_date 2023 3 14" "real_date 1969 12 31"
  "\<not> real_date 2025 2 30" "\<not> real_date 2023 2 29"
  by (simp_all add: real_date_eval)

lemma local_fields:
  assumes "real_date y (m + 1) d" "Day (LocalTime tz t) = MakeDay y m d"
  shows "getFullYear tz (Date (Some t)) = Fin (of_int y)"
    and "getMonth tz (Date (Some t)) = Fin (of_int m)"
    and "getDate tz (Date (Some t)) = Fin (of_int d)"
  using fields_of_MakeDay [OF assms] by (simp_all add: getFullYear_def getMonth_def getDate_def)

lemma utc_fields:
  assumes "real_date y (m + 1) d" "Day t = MakeDay y m d"
  shows "getUTCFullYear (Date (Some t)) = Fin (of_int y)"
    and "getUTCMonth (Date (Some t)) = Fin (of_int m)"
    and "getUTCDate (Date (Some t)) = Fin (of_int d)"
  using fields_of_MakeDay [OF assms]
  by (simp_all add: getUTCFullYear_def getUTCMonth_def getUTCDate_def)

lemma fromDate_fields:
  assumes "real_date y (m + 1) d" "Day (LocalTime tz t) = MakeDay y m d" "100 \<le> y" "y \<le> 9999"
  shows "fromDate tz (Date (Some t)) = Fin (of_int (MakeDay y m d))"
proof -
  have c: "\<bar>MakeDay y m d * msPerDay\<bar> \<le> 8640000000000000"
    using MakeDay_clip [OF assms(1,3,4)] by (simp add: TimeClip_def split: if_splits)
  show ?thesis
    using assms(3) c by (simp add: fromDate_Some Let_def fields_of_MakeDay [OF assms(1,2)])
qed

section \<open>Formatting and the local day\<close>

subsection \<open>Formatting\<close>

lemma to_digits_single: "v < 10 \<Longrightarrow> to_digits 10 v = [digit_char v]"
  by (subst to_digits.simps) simp

lemma to_digits_step:
  assumes "0 < k" "v < 10"
  shows "to_digits 10 (k * 10 + v) = to_digits 10 k @ [digit_char v]"
proof -
  have "\<not> (k * 10 + v < 10)" "(k * 10 + v) div 10 = k" "(k * 10 + v) mod 10 = v"
    using assms by simp_all
  then show ?thesis by (subst to_digits.simps) simp
qed

lemma digit_char_zero: "digit_char 0 = CHR ''0''"
  by (simp add: digit_char_def) code_simp

lemma dv_zero_char:
  assumes "is_digit a" "dv a = 0" shows "a = CHR ''0''"
  using digit_char_dv [OF assms(1)] assms(2) by (simp add: digit_char_zero)

lemma int_toString_nat: "int_toString b (int n) = to_digits b n"
  by (simp add: int_toString_def)

lemma format_two:
  assumes "is_digit a" "is_digit b"
  shows "padStart0 2 (int_toString 10 (decimal [a, b])) = [a, b]"
proof (cases "dv a = 0")
  case True
  have "to_digits 10 (dv b) = [b]"
    using dv_less [OF assms(2)] by (simp add: to_digits_single digit_char_dv [OF assms(2)])
  moreover have "decimal [a, b] = int (dv b)"
    using True by (simp add: decimal_two [OF assms])
  ultimately have "padStart0 2 (int_toString 10 (decimal [a, b])) = [CHR ''0'', b]"
    by (simp add: int_toString_nat padStart0_def)
  then show ?thesis
    using dv_zero_char [OF assms(1) True] by simp
next
  case False
  then have p: "0 < dv a" by simp
  have "to_digits 10 (dv a * 10 + dv b) = to_digits 10 (dv a) @ [digit_char (dv b)]"
    by (rule to_digits_step [OF p dv_less [OF assms(2)]])
  moreover have "to_digits 10 (dv a) = [a]"
    using dv_less [OF assms(1)] by (simp add: to_digits_single digit_char_dv [OF assms(1)])
  ultimately have "to_digits 10 (dv a * 10 + dv b) = [a, b]"
    by (simp only: digit_char_dv [OF assms(2)] append.simps)
  then show ?thesis
    unfolding decimal_two [OF assms] int_toString_nat by (simp add: padStart0_def)
qed

lemma format_four:
  assumes d: "is_digit a" "is_digit b" "is_digit c" "is_digit e"
    and y: "1000 \<le> decimal [a, b, c, e]"
  shows "int_toString 10 (decimal [a, b, c, e]) = [a, b, c, e]"
proof -
  note l = dv_less [OF d(1)] dv_less [OF d(2)] dv_less [OF d(3)] dv_less [OF d(4)]
  have "1000 \<le> ((dv a * 10 + dv b) * 10 + dv c) * 10 + dv e"
    using y unfolding decimal_four [OF d] by linarith
  then have a: "0 < dv a" using l by simp
  have 1: "to_digits 10 (dv a) = [a]"
    using l by (simp add: to_digits_single digit_char_dv [OF d(1)])
  have 2: "to_digits 10 (dv a * 10 + dv b) = [a, b]"
  proof -
    have "to_digits 10 (dv a * 10 + dv b) = to_digits 10 (dv a) @ [digit_char (dv b)]"
      by (rule to_digits_step [OF a l(2)])
    then show ?thesis by (simp only: 1 digit_char_dv [OF d(2)] append.simps)
  qed
  have p3: "0 < dv a * 10 + dv b" using a by simp
  have 3: "to_digits 10 ((dv a * 10 + dv b) * 10 + dv c) = [a, b, c]"
  proof -
    have "to_digits 10 ((dv a * 10 + dv b) * 10 + dv c) =
        to_digits 10 (dv a * 10 + dv b) @ [digit_char (dv c)]"
      by (rule to_digits_step [OF p3 l(3)])
    then show ?thesis by (simp only: 2 digit_char_dv [OF d(3)] append.simps)
  qed
  have p4: "0 < (dv a * 10 + dv b) * 10 + dv c" using a by simp
  have 4: "to_digits 10 (((dv a * 10 + dv b) * 10 + dv c) * 10 + dv e) = [a, b, c, e]"
  proof -
    have "to_digits 10 (((dv a * 10 + dv b) * 10 + dv c) * 10 + dv e) =
        to_digits 10 ((dv a * 10 + dv b) * 10 + dv c) @ [digit_char (dv e)]"
      by (rule to_digits_step [OF p4 l(4)])
    then show ?thesis by (simp only: 3 digit_char_dv [OF d(4)] append.simps)
  qed
  show ?thesis
    unfolding decimal_four [OF d] int_toString_nat by (rule 4)
qed

lemma toISOString_fields:
  assumes "YearFromTime (LocalTime tz u) = y" "MonthFromTime (LocalTime tz u) = m"
    "DateFromTime (LocalTime tz u) = d"
  shows "toISOString tz (Date (Some u)) =
         int_toString 10 y @ ''-'' @ padStart0 2 (int_toString 10 (m + 1)) @ ''-'' @
         padStart0 2 (int_toString 10 d)"
proof -
  have "\<lfloor>(of_int m :: real) + 1\<rfloor> = m + 1" by linarith
  then show ?thesis
    by (simp add: toISOString_def getFullYear_def getMonth_def getDate_def assms)
qed

lemma DayFromYear_1973: "DayFromYear 1973 = 1096"
  by (simp add: DayFromYear_def)

lemma in_range_year:
  assumes r: "real_date y (m + 1) d" and lo: "1296 \<le> MakeDay y m d"
  shows "1973 \<le> y"
proof (rule ccontr)
  assume "\<not> 1973 \<le> y"
  then have "y + 1 \<le> 1973" by simp
  from DayFromYear_mono [OF this] MakeDay_bounds [OF r] lo show False
    by (simp add: DayFromYear_1973)
qed

lemma iso_round_trip_aux:
  assumes m: "ISO_REGEX_match s = Some (g1, g2, g3)"
    and r: "real_date (decimal g1) (decimal g2) (decimal g3)"
    and lo: "1296 \<le> MakeDay (decimal g1) (decimal g2 - 1) (decimal g3)"
    and hi: "MakeDay (decimal g1) (decimal g2 - 1) (decimal g3) \<le> 46655"
    and k: "keeps_local_date (zone h)
        (MakeDay (decimal g1) (decimal g2 - 1) (decimal g3) * msPerDay)"
  shows "CivilDate_new h (StringArg s) =
           Inr \<lparr>value = Fin (of_int (MakeDay (decimal g1) (decimal g2 - 1) (decimal g3)))\<rparr> \<and>
         CivilDate_toISOString h
           \<lparr>value = Fin (of_int (MakeDay (decimal g1) (decimal g2 - 1) (decimal g3)))\<rparr> = Inr s"
proof -
  let ?Y = "decimal g1" and ?M = "decimal g2 - 1" and ?D = "decimal g3"
  let ?N = "MakeDay ?Y ?M ?D"
  from m obtain y1 y2 y3 y4 m1 m2 d1 d2 where
    s: "s = [y1, y2, y3, y4, CHR ''-'', m1, m2, CHR ''-'', d1, d2]" and
    g: "g1 = [y1, y2, y3, y4]" "g2 = [m1, m2]" "g3 = [d1, d2]" and
    dg: "is_digit y1" "is_digit y2" "is_digit y3" "is_digit y4" and
    mg: "month_group m1 m2" and dd: "day_group d1 d2"
    by (rule ISO_REGEX_match_parts)
  have r': "real_date ?Y (?M + 1) ?D" using r by simp
  have y: "1973 \<le> ?Y" by (rule in_range_year [OF r' lo])
  then have y100: "100 \<le> ?Y" by simp
  have new: "CivilDate_new h (StringArg s) = Inr \<lparr>value = Fin (of_int ?N)\<rparr>"
    by (rule CivilDate_new_iso_valid [OF m r y100 k])
  have "\<bar>?N\<bar> \<le> 100000000" using lo hi by simp
  then have td: "toDate (Days (Fin (of_int ?N))) = Inr (Date (Some (?N * 86400000)))"
    by (rule toDate_Days_int)
  have day: "Day (?N * 86400000) = ?N" by (simp add: Day_def msPerDay_def)
  note uf = utc_fields [OF r' day]
  from local_fields_kept [OF r' k y100] obtain u where
    u: "Date_of_fields (zone h) (Fin (of_int ?Y)) (Fin (of_int ?M)) (Fin (of_int ?D)) = Date (Some u)"
    and f: "YearFromTime (LocalTime (zone h) u) = ?Y" "MonthFromTime (LocalTime (zone h) u) = ?M"
      "DateFromTime (LocalTime (zone h) u) = ?D"
    by blast
  have fy: "int_toString 10 ?Y = g1"
    using y unfolding g by (intro format_four [OF dg]) simp
  have fm: "padStart0 2 (int_toString 10 (?M + 1)) = g2"
    using month_group_value [OF mg] by (simp add: g format_two)
  have fd: "padStart0 2 (int_toString 10 ?D) = g3"
    using day_group_value [OF dd] by (simp add: g format_two)
  have "toISOString (zone h) (Date (Some u)) = g1 @ ''-'' @ g2 @ ''-'' @ g3"
    unfolding toISOString_fields [OF f] fy fm fd ..
  also have "\<dots> = s" by (simp add: s g)
  finally have "CivilDate_toISOString h \<lparr>value = Fin (of_int ?N)\<rparr> = Inr s"
    by (simp add: CivilDate_toISOString_def td uf u del: of_int_diff)
  with new show ?thesis by simp
qed

subsection \<open>The day count of a local calendar day\<close>

lemma MakeDay_of_fields:
  "MakeDay (YearFromTime t) (MonthFromTime t) (DateFromTime t) = Day t"
proof -
  have "in_month (InLeapYear t) (DayWithinYear t) (MonthFromTime t)"
    by (rule MonthFromTime_in_month)
  then have m: "0 \<le> MonthFromTime t" "MonthFromTime t \<le> 11"
    by (simp_all add: in_month_def)
  have dm: "MonthFromTime t div 12 = 0" "MonthFromTime t mod 12 = MonthFromTime t"
    using m by simp_all
  show ?thesis
    unfolding MakeDay_def Let_def dm
    by (simp add: DateFromTime_def InLeapYear_def DayWithinYear_def)
qed

lemma fromDate_local_day:
  assumes "100 \<le> YearFromTime (LocalTime tz t)" "YearFromTime (LocalTime tz t) \<le> 9999"
  shows "fromDate tz (Date (Some t)) = Fin (of_int (Day (LocalTime tz t)))"
proof -
  let ?lt = "LocalTime tz t"
  let ?y = "YearFromTime ?lt"
  have b: "DayFromYear ?y \<le> Day ?lt" "Day ?lt < DayFromYear (?y + 1)"
    using YearFromDay_bounds [of "Day ?lt"]
    by (simp_all add: YearFromTime_def DayFromYear_step)
  have "DayFromYear 100 \<le> DayFromYear ?y" "DayFromYear (?y + 1) \<le> DayFromYear 10000"
    using assms by (intro DayFromYear_mono; simp)+
  then have "- 683003 \<le> Day ?lt" "Day ?lt < 2932897"
    using b by (simp_all add: DayFromYear_100 DayFromYear_10000)
  then have "\<bar>Day ?lt * msPerDay\<bar> \<le> 8640000000000000"
    by (simp add: msPerDay_def)
  then show ?thesis
    using assms(1) by (simp add: fromDate_Some Let_def MakeDay_of_fields)
qed

section \<open>Claims about \<^verbatim>\<open>encode\<close> and \<^verbatim>\<open>decode\<close>\<close>

text \<open>
  Claim C2, as stated: \<^verbatim>\<open>encode\<close> floors first and validates the floored value, so it
  succeeds exactly when \<open>floor(days)\<close> is in \<open>[1296, 46655]\<close>. The source compares the
  argument itself with the bounds and floors afterwards: at \<open>46655.5\<close> the floor is
  \<open>46655\<close>, in range, and \<^verbatim>\<open>encode\<close> fails.
\<close>

theorem encode_floor_first_counterexample:
  "1296 \<le> \<lfloor>93311 / 2 :: real\<rfloor> \<and> \<lfloor>93311 / 2 :: real\<rfloor> \<le> 46655 \<and>
   encode (Fin (93311 / 2)) = Inl (Error ''Days out of range'')"
  by (simp add: encode_Fin)

text \<open>
  Claim C2, amended: \<^verbatim>\<open>encode\<close> validates its argument and then floors. For every number
  other than \<open>NaN\<close> it returns the three-character code of \<open>floor(days)\<close> exactly when
  \<open>days\<close> itself lies in \<open>[1296, 46655]\<close>, and fails with the error
  \<^verbatim>\<open>Days out of range\<close> otherwise.
\<close>

theorem encode_validates_then_floors:
  "(\<forall>q. encode (Fin q) =
      (if 1296 \<le> q \<and> q \<le> 46655 then Inr (radix36_code (nat \<lfloor>q\<rfloor>))
       else Inl (Error ''Days out of range''))) \<and>
   encode PosInf = Inl (Error ''Days out of range'') \<and>
   encode NegInf = Inl (Error ''Days out of range'')"
  by (simp add: encode_Fin) (simp add: encode_def MIN_DAYS_def MAX_DAYS_def num_greater_def)

theorem encode_validates_then_floors_witness:
  "encode (Fin (204459 / 10)) = Inr ''FRX'' \<and>
   encode (Fin 1296) = Inr ''100'' \<and>
   encode (Fin 46655) = Inr ''ZZZ'' \<and>
   encode (Fin (466559 / 10)) = Inl (Error ''Days out of range'') \<and>
   encode (Fin 0) = Inl (Error ''Days out of range'') \<and>
   encode (Fin 46656) = Inl (Error ''Days out of range'')"
proof -
  have c: "radix36_code 20445 = ''FRX''" "radix36_code 1296 = ''100''"
    "radix36_code 46655 = ''ZZZ''"
    by (simp add: radix36_code_def upper_digit_def, code_simp)+
  have e: "encode (Fin q) =
      (if 1296 \<le> q \<and> q \<le> 46655 then Inr (radix36_code (nat \<lfloor>q\<rfloor>))
       else Inl (Error ''Days out of range''))" for q
    using encode_validates_then_floors by blast
  show ?thesis using c by (simp add: e)
qed

text \<open>
  Claim C3: the codec round-trips in both directions. For every integer \<open>d\<close> in
  \<open>[1296, 46655]\<close>, \<^verbatim>\<open>decode(encode(d))\<close> is \<open>d\<close>; for every string \<open>c\<close> accepted by the
  code pattern whose upper-case form decodes to a value in \<open>[1296, 46655]\<close>,
  \<^verbatim>\<open>encode(decode(c.toUpperCase()))\<close> is \<^verbatim>\<open>c.toUpperCase()\<close>.
\<close>

theorem codec_round_trip:
  "(\<forall>d::int. 1296 \<le> d \<and> d \<le> 46655 \<longrightarrow>
      (\<exists>c. encode (Fin (of_int d)) = Inr c \<and> decode c = Inr (Fin (of_int d)))) \<and>
   (\<forall>c v. CODE_REGEX_test c \<and> decode (toUpperCase c) = Inr (Fin v) \<and>
      1296 \<le> v \<and> v \<le> 46655 \<longrightarrow> encode (Fin v) = Inr (toUpperCase c))"
proof (intro conjI allI impI)
  fix d :: int
  assume d: "1296 \<le> d \<and> d \<le> 46655"
  let ?n = "nat d"
  have n: "?n \<le> 46655" "int ?n = d" using d by linarith+
  have "encode (Fin (of_int d)) = Inr (radix36_code ?n)"
    using d by (simp add: encode_Fin)
  moreover have "decode (radix36_code ?n) = Inr (Fin (of_nat ?n))"
    using n(1) by (simp add: decode_char radix36_code_regex radix36_code_value)
  moreover have "(of_nat ?n :: real) = of_int d"
    using n(2) by (metis of_int_of_nat_eq)
  ultimately show "\<exists>c. encode (Fin (of_int d)) = Inr c \<and> decode c = Inr (Fin (of_int d))"
    by simp
next
  fix c v
  assume a: "CODE_REGEX_test c \<and> decode (toUpperCase c) = Inr (Fin v) \<and> 1296 \<le> v \<and> v \<le> 46655"
  then have "decode c = Inr (Fin v)"
    by (simp add: decode_upper)
  with a have v: "v = of_nat (digits_value 36 c)"
    by (simp add: decode_char)
  have "nat \<lfloor>v\<rfloor> = digits_value 36 c" unfolding v by simp
  then show "encode (Fin v) = Inr (toUpperCase c)"
    using a by (simp add: encode_Fin radix36_code_of_value)
qed

theorem codec_round_trip_witness:
  "(\<exists>c. encode (Fin 20445) = Inr c \<and> decode c = Inr (Fin 20445)) \<and>
   encode (Fin 20445) = Inr ''FRX'' \<and> decode ''FRX'' = Inr (Fin 20445) \<and>
   CODE_REGEX_test ''frx'' \<and> toUpperCase ''frx'' = ''FRX'' \<and>
   encode (Fin 20445) = Inr (toUpperCase ''frx'')"
proof -
  have r: "CODE_REGEX_test ''frx''"
    by (simp add: CODE_REGEX_test_def char_simps)
  note e = encode_FRX decode_FRX r upper_frx
  have "(1296::int) \<le> 20445 \<and> (20445::int) \<le> 46655" by simp
  then have "\<exists>c. encode (Fin (of_int 20445)) = Inr c \<and> decode c = Inr (Fin (of_int 20445))"
    using codec_round_trip by blast
  then have a: "\<exists>c. encode (Fin 20445) = Inr c \<and> decode c = Inr (Fin 20445)" by simp
  have "CODE_REGEX_test ''frx'' \<and> decode (toUpperCase ''frx'') = Inr (Fin 20445) \<and>
      1296 \<le> (20445::real) \<and> (20445::real) \<le> 46655"
    using e by simp
  then have "encode (Fin 20445) = Inr (toUpperCase ''frx'')"
    using codec_round_trip by blast
  then show ?thesis using a e by simp
qed

text \<open>
  Claim C4: \<^verbatim>\<open>decode\<close> succeeds exactly on the strings that match the code pattern (three
  characters, each a digit or a letter) and fails with \<^verbatim>\<open>Invalid civil-date code\<close> on every
  other string. On an accepted string the result is an integer between \<open>0\<close> and \<open>46655\<close>,
  with no lower bound beyond \<open>0\<close>, and it does not depend on the case of the letters.
\<close>

theorem decode_accepts_exactly_code_pattern:
  "(CODE_REGEX_test s \<longrightarrow>
      (\<exists>n::nat. n \<le> 46655 \<and> decode s = Inr (Fin (of_nat n))) \<and>
      decode s = decode (toUpperCase s)) \<and>
   (\<not> CODE_REGEX_test s \<longrightarrow> decode s = Inl (Error ''Invalid civil-date code''))"
  using digits_value_bound [of s]
  by (auto simp: decode_char code_regex_upper digits_value_upper)

theorem decode_accepts_exactly_code_pattern_witness:
  "CODE_REGEX_test ''frx'' \<and> decode ''frx'' = Inr (Fin 20445) \<and>
   decode ''FRX'' = Inr (Fin 20445) \<and> decode ''000'' = Inr (Fin 0) \<and>
   decode ''ZZZ'' = Inr (Fin 46655) \<and>
   \<not> CODE_REGEX_test ''???'' \<and> decode ''???'' = Inl (Error ''Invalid civil-date code'') \<and>
   decode '''' = Inl (Error ''Invalid civil-date code'') \<and>
   decode ''FR'' = Inl (Error ''Invalid civil-date code'') \<and>
   decode ''FRXX'' = Inl (Error ''Invalid civil-date code'')"
proof -
  have r: "CODE_REGEX_test ''frx''" "\<not> CODE_REGEX_test ''???''" "\<not> CODE_REGEX_test []"
    "\<not> CODE_REGEX_test ''FR''" "\<not> CODE_REGEX_test ''FRXX''"
    by (simp_all add: CODE_REGEX_test_def char_simps)
  have v: "decode ''000'' = Inr (Fin 0)" "decode ''ZZZ'' = Inr (Fin 46655)"
    by (simp_all add: decode_char CODE_REGEX_test_def digits_value_three char_simps)
  show ?thesis
    using r v decode_FRX upper_frx decode_accepts_exactly_code_pattern [of "''frx''"]
      decode_accepts_exactly_code_pattern [of "''???''"]
      decode_accepts_exactly_code_pattern [of "''''"]
      decode_accepts_exactly_code_pattern [of "''FR''"]
      decode_accepts_exactly_code_pattern [of "''FRXX''"]
    by simp
qed

section \<open>Claims about dates and the \<^verbatim>\<open>CivilDate\<close> class\<close>

text \<open>
  Claim C5: \<^verbatim>\<open>fromDate\<close> depends only on the local year, month and day of month of its
  argument. Two dates with equal local fields, at any times of day and in any zones, give
  the same day count, which is \<open>floor(Date.UTC(year, month, day) / 86400000)\<close> of these
  fields; for a date in the years 100 to 9999 it is the number of the local calendar day.
\<close>

theorem fromDate_depends_on_local_fields:
  "(getFullYear tz1 d1 = getFullYear tz2 d2 \<and> getMonth tz1 d1 = getMonth tz2 d2 \<and>
    getDate tz1 d1 = getDate tz2 d2 \<longrightarrow> fromDate tz1 d1 = fromDate tz2 d2) \<and>
   fromDate tz1 d1 =
     Math_floor (num_divide
       (Date_UTC (getFullYear tz1 d1) (getMonth tz1 d1) (getDate tz1 d1)) (Fin 86400000)) \<and>
   (\<forall>t. d1 = Date (Some t) \<and> 100 \<le> YearFromTime (LocalTime tz1 t) \<and>
      YearFromTime (LocalTime tz1 t) \<le> 9999 \<longrightarrow>
      fromDate tz1 d1 = Fin (of_int (Day (LocalTime tz1 t))))"
  by (simp add: fromDate_local_day) (simp add: fromDate_def MS_PER_DAY_def Let_def)

text \<open>
  The two moments of the repository's test, 2025-12-23T01:00-06:00 and
  2025-12-23T23:00-06:00, in the zone six hours behind UTC, and noon of the same local day
  in a zone nine hours ahead.
\<close>

theorem fromDate_depends_on_local_fields_witness:
  "getFullYear (fixed_zone (- 21600000)) (Date (Some 1766473200000)) = Fin 2025 \<and>
   getMonth (fixed_zone (- 21600000)) (Date (Some 1766473200000)) = Fin 11 \<and>
   getDate (fixed_zone (- 21600000)) (Date (Some 1766473200000)) = Fin 23 \<and>
   getFullYear (fixed_zone (- 21600000)) (Date (Some 1766552400000)) = Fin 2025 \<and>
   getMonth (fixed_zone (- 21600000)) (Date (Some 1766552400000)) = Fin 11 \<and>
   getDate (fixed_zone (- 21600000)) (Date (Some 1766552400000)) = Fin 23 \<and>
   getFullYear (fixed_zone 32400000) (Date (Some 1766458800000)) = Fin 2025 \<and>
   getMonth (fixed_zone 32400000) (Date (Some 1766458800000)) = Fin 11 \<and>
   getDate (fixed_zone 32400000) (Date (Some 1766458800000)) = Fin 23 \<and>
   fromDate (fixed_zone (- 21600000)) (Date (Some 1766473200000)) = Fin 20445 \<and>
   fromDate (fixed_zone (- 21600000)) (Date (Some 1766552400000)) = Fin 20445 \<and>
   fromDate (fixed_zone 32400000) (Date (Some 1766458800000)) = Fin 20445"
proof -
  let ?z = "fixed_zone (- 21600000)" and ?j = "fixed_zone 32400000"
  let ?a = "Date (Some 1766473200000)" and ?b = "Date (Some 1766552400000)"
  let ?c = "Date (Some 1766458800000)"
  have r: "real_date 2025 (11 + 1) 23" by (simp add: real_date_examples)
  have da: "Day (LocalTime ?z 1766473200000) = MakeDay 2025 11 23"
    and db: "Day (LocalTime ?z 1766552400000) = MakeDay 2025 11 23"
    and dc: "Day (LocalTime ?j 1766458800000) = MakeDay 2025 11 23"
    by (simp_all add: MakeDay_examples LocalTime_def fixed_zone_def Day_def msPerDay_def)
  have a: "getFullYear ?z ?a = Fin 2025" "getMonth ?z ?a = Fin 11" "getDate ?z ?a = Fin 23"
    using local_fields [OF r da] by simp_all
  have b: "getFullYear ?z ?b = Fin 2025" "getMonth ?z ?b = Fin 11" "getDate ?z ?b = Fin 23"
    using local_fields [OF r db] by simp_all
  have c: "getFullYear ?j ?c = Fin 2025" "getMonth ?j ?c = Fin 11" "getDate ?j ?c = Fin 23"
    using local_fields [OF r dc] by simp_all
  have y: "YearFromTime (LocalTime ?z 1766473200000) = 2025"
    using fields_of_MakeDay [OF r da] by simp
  have "?a = Date (Some 1766473200000) \<and> 100 \<le> YearFromTime (LocalTime ?z 1766473200000) \<and>
      YearFromTime (LocalTime ?z 1766473200000) \<le> 9999"
    by (simp add: y)
  then have "fromDate ?z ?a = Fin (of_int (Day (LocalTime ?z 1766473200000)))"
    using fromDate_depends_on_local_fields [of ?z ?a ?z ?a] by blast
  then have v: "fromDate ?z ?a = Fin 20445"
    by (simp add: da MakeDay_examples)
  have "fromDate ?z ?a = fromDate ?z ?b"
    using fromDate_depends_on_local_fields [of ?z ?a ?z ?b] a b by simp
  moreover have "fromDate ?z ?a = fromDate ?j ?c"
    using fromDate_depends_on_local_fields [of ?z ?a ?j ?c] a c by simp
  ultimately show ?thesis using a b c v by simp
qed

text \<open>
  Claim C7: \<^verbatim>\<open>toDate\<close> of a day count \<open>d\<close> is the moment \<open>d * 86400000\<close> milliseconds after
  the epoch, which is midnight UTC of day \<open>d\<close>; \<^verbatim>\<open>toDate(20445)\<close> has the UTC fields year
  2025, month 11 (December), day 23, hour 0 and minute 0.
\<close>

theorem toDate_is_utc_midnight:
  "(\<forall>d::int. 1296 \<le> d \<and> d \<le> 46655 \<longrightarrow>
      toDate (Days (Fin (of_int d))) = Inr (Date (Some (d * 86400000))) \<and>
      Day (d * 86400000) = d \<and>
      getUTCHours (Date (Some (d * 86400000))) = Fin 0 \<and>
      getUTCMinutes (Date (Some (d * 86400000))) = Fin 0) \<and>
   toDate (Days (Fin 20445)) = Inr (Date (Some 1766448000000)) \<and>
   getUTCFullYear (Date (Some 1766448000000)) = Fin 2025 \<and>
   getUTCMonth (Date (Some 1766448000000)) = Fin 11 \<and>
   getUTCDate (Date (Some 1766448000000)) = Fin 23 \<and>
   getUTCHours (Date (Some 1766448000000)) = Fin 0 \<and>
   getUTCMinutes (Date (Some 1766448000000)) = Fin 0"
proof (intro conjI allI impI)
  fix d :: int
  assume d: "1296 \<le> d \<and> d \<le> 46655"
  then have "\<bar>d\<bar> \<le> 100000000" by simp
  then show "toDate (Days (Fin (of_int d))) = Inr (Date (Some (d * 86400000)))"
    by (rule toDate_Days_int)
  show "Day (d * 86400000) = d" by (simp add: Day_def msPerDay_def)
  have h: "d * 86400000 div 3600000 = d * 24" by simp
  have m: "d * 86400000 div 60000 = d * 1440" by simp
  show "getUTCHours (Date (Some (d * 86400000))) = Fin 0"
    by (simp add: getUTCHours_def HourFromTime_def h)
  show "getUTCMinutes (Date (Some (d * 86400000))) = Fin 0"
    by (simp add: getUTCMinutes_def MinFromTime_def m)
next
  show "toDate (Days (Fin 20445)) = Inr (Date (Some 1766448000000))"
    using toDate_Days_int [of 20445] by simp
next
  have r: "real_date 2025 (11 + 1) 23" by (simp add: real_date_examples)
  have d: "Day 1766448000000 = MakeDay 2025 11 23"
    by (simp add: MakeDay_examples Day_def msPerDay_def)
  show "getUTCFullYear (Date (Some 1766448000000)) = Fin 2025"
    "getUTCMonth (Date (Some 1766448000000)) = Fin 11"
    "getUTCDate (Date (Some 1766448000000)) = Fin 23"
    using utc_fields [OF r d] by simp_all
  show "getUTCHours (Date (Some 1766448000000)) = Fin 0"
    by (simp add: getUTCHours_def HourFromTime_def)
  show "getUTCMinutes (Date (Some 1766448000000)) = Fin 0"
    by (simp add: getUTCMinutes_def MinFromTime_def)
qed

theorem toDate_is_utc_midnight_witness:
  "toDate (Days (Fin 1296)) = Inr (Date (Some 111974400000)) \<and>
   Day 111974400000 = 1296 \<and>
   getUTCHours (Date (Some 111974400000)) = Fin 0 \<and>
   getUTCMinutes (Date (Some 111974400000)) = Fin 0"
proof -
  have "(1296::int) \<le> 1296 \<and> (1296::int) \<le> 46655" by simp
  then have "toDate (Days (Fin (of_int 1296))) = Inr (Date (Some (1296 * 86400000))) \<and>
      Day (1296 * 86400000) = 1296 \<and>
      getUTCHours (Date (Some (1296 * 86400000))) = Fin 0 \<and>
      getUTCMinutes (Date (Some (1296 * 86400000))) = Fin 0"
    using toDate_is_utc_midnight by blast
  then show ?thesis by simp
qed

text \<open>
  Claim C10, as stated: for every number \<open>n\<close>, \<^verbatim>\<open>toDate(n)\<close> is the moment \<open>n * 86400000\<close>
  milliseconds after the epoch. A \<^verbatim>\<open>Date\<close> holds no time beyond 8.64e15 milliseconds: at
  \<open>n = 100000001\<close> the result is an invalid date, not the moment 8640000086400000.
\<close>

theorem toDate_moment_counterexample:
  "toDate (Days (Fin 100000001)) = Inr (Date None) \<and>
   toDate (Days (Fin 100000001)) \<noteq> Inr (Date (Some (100000001 * 86400000)))"
  using toDate_Days_int_product [of 100000001] by simp

text \<open>
  Claim C10, amended: \<^verbatim>\<open>toDate\<close> never fails for a number and checks no range of day
  counts; it returns \<^verbatim>\<open>new Date(n * 86400000)\<close>, the product being the double product. For
  an integer \<open>n\<close> of magnitude up to \<open>100000000\<close> that is the moment \<open>n * 86400000\<close>, and for
  the integers beyond, up to \<open>104249991\<close>, an invalid date; for any finite \<open>n\<close> it is what
  \<^verbatim>\<open>new Date\<close> makes of the rounded product (rounded towards zero to whole milliseconds
  up to 8.64e15, an invalid date beyond); for \<open>NaN\<close> and the infinities it is an invalid
  date. With a string argument \<^verbatim>\<open>toDate\<close> fails exactly when \<^verbatim>\<open>decode\<close> does.
\<close>

theorem toDate_number_never_fails:
  "(\<exists>date. toDate (Days n) = Inr date) \<and>
   toDate (Days n) = Inr (Date_of_value (num_times n (Fin 86400000))) \<and>
   (\<forall>i::int. \<bar>i\<bar> \<le> 100000000 \<longrightarrow>
      toDate (Days (Fin (of_int i))) = Inr (Date (Some (i * 86400000)))) \<and>
   (\<forall>i::int. 100000000 < \<bar>i\<bar> \<and> \<bar>i\<bar> \<le> 104249991 \<longrightarrow>
      toDate (Days (Fin (of_int i))) = Inr (Date None)) \<and>
   (\<forall>q. toDate (Days (Fin q)) = Inr (Date_of_value (to_double (q * 86400000)))) \<and>
   toDate (Days NaN) = Inr (Date None) \<and>
   toDate (Days PosInf) = Inr (Date None) \<and>
   toDate (Days NegInf) = Inr (Date None) \<and>
   (\<forall>s e. (toDate (Code s) = Inl e) = (decode s = Inl e))"
proof (intro conjI allI impI)
  show "\<exists>date. toDate (Days n) = Inr date" by (simp add: toDate_def)
  show "(toDate (Code s) = Inl e) = (decode s = Inl e)" for s e
    by (simp add: toDate_def split: sum.splits)
  show "toDate (Days n) = Inr (Date_of_value (num_times n (Fin 86400000)))"
    by (simp add: toDate_def MS_PER_DAY_def)
  show "toDate (Days (Fin q)) = Inr (Date_of_value (to_double (q * 86400000)))" for q
    by (rule toDate_Days_Fin)
next
  fix i :: int
  assume "\<bar>i\<bar> \<le> 100000000"
  then show "toDate (Days (Fin (of_int i))) = Inr (Date (Some (i * 86400000)))"
    by (rule toDate_Days_int)
next
  fix i :: int
  assume "100000000 < \<bar>i\<bar> \<and> \<bar>i\<bar> \<le> 104249991"
  then show "toDate (Days (Fin (of_int i))) = Inr (Date None)"
    using toDate_Days_int_product [of i] by simp
qed (simp_all add: toDate_def MS_PER_DAY_def)

text \<open>
  Instances. The double nearest to \<open>20445.3\<close> is \<open>5619961270842163 / 2^38\<close>: its exact
  product with \<open>86400000\<close> lies below \<open>1766473920000\<close> and rounds to it.
\<close>

theorem toDate_number_never_fails_witness:
  "toDate (Days (Fin (- 1))) = Inr (Date (Some (- 86400000))) \<and>
   toDate (Days (Fin 0)) = Inr (Date (Some 0)) \<and>
   toDate (Days (Fin 50000)) = Inr (Date (Some 4320000000000)) \<and>
   toDate (Days (Fin (- 104249991))) = Inr (Date None) \<and>
   toDate (Days (Fin (1 / 2))) = Inr (Date (Some 43200000)) \<and>
   toDate (Days (Fin (5619961270842163 / 274877906944))) = Inr (Date (Some 1766473920000))"
proof -
  have i: "toDate (Days (Fin (of_int i))) = Inr (Date (Some (i * 86400000)))"
    if "\<bar>i\<bar> \<le> 100000000" for i :: int
    using toDate_number_never_fails that by blast
  have b: "toDate (Days (Fin (of_int i))) = Inr (Date None)"
    if "100000000 < \<bar>i\<bar> \<and> \<bar>i\<bar> \<le> 104249991" for i :: int
    using toDate_number_never_fails that by blast
  have q: "toDate (Days (Fin q)) = Inr (Date_of_value (to_double (q * 86400000)))" for q
    using toDate_number_never_fails by blast
  have h: "to_double 43200000 = Fin 43200000"
    using to_double_int [of 43200000] by simp
  have x: "(5619961270842163 / 274877906944 * 86400000 :: real) =
      474184232227307503125 / 268435456"
    by simp
  have e: "binary_exponent (474184232227307503125 / 268435456) = 40"
    by (simp add: binary_exponent_def bit_length.simps)
  have d: "to_double (474184232227307503125 / 268435456) = Fin 1766473920000"
    unfolding to_double_def Let_def by (simp add: e pow2_def round_half_even_def)
  have t: "ToInteger 43200000 = 43200000" "ToInteger 1766473920000 = 1766473920000"
    by (simp_all add: ToInteger_def)
  have "toDate (Days (Fin (1 / 2))) = Inr (Date (Some 43200000))"
    unfolding q by (simp add: h t)
  moreover have "toDate (Days (Fin (5619961270842163 / 274877906944))) =
      Inr (Date (Some 1766473920000))"
    unfolding q x d by (simp add: t)
  ultimately show ?thesis
    using i [of "- 1"] i [of 0] i [of 50000] b [of "- 104249991"] by simp
qed

text \<open>
  Claim C1, as stated: every entry point rejects a day count outside \<open>[1296, 46655]\<close>, so
  every constructed \<^verbatim>\<open>CivilDate\<close> has its value in that range. Only the numeric path of
  the constructor compares the value with the bounds: the code \<^verbatim>\<open>000\<close> gives the value
  \<open>0\<close>, the ISO string \<^verbatim>\<open>1970-01-02\<close> the value \<open>1\<close>, and \<^verbatim>\<open>decode\<close> returns \<open>0\<close> for
  \<^verbatim>\<open>000\<close>.
\<close>

theorem value_range_counterexample:
  "CivilDate_new central_host (StringArg ''000'') = Inr \<lparr>value = Fin 0\<rparr> \<and>
   CivilDate_new central_host (StringArg ''1970-01-02'') = Inr \<lparr>value = Fin 1\<rparr> \<and>
   decode ''000'' = Inr (Fin 0)"
proof -
  have c: "CODE_REGEX_test ''000''" by (simp add: CODE_REGEX_test_def char_simps)
  have v: "digits_value 36 ''000'' = 0" by (simp add: digits_value_three char_simps)
  have k: "keeps_local_date (zone central_host)
      (MakeDay (decimal ''1970'') (decimal ''01'' - 1) (decimal ''02'') * msPerDay)"
    unfolding central_zone
    by (rule keeps_local_date_fixed) (simp add: decimal_examples MakeDay_examples msPerDay_def)
  have "CivilDate_new central_host (StringArg ''1970-01-02'') =
      Inr \<lparr>value = Fin (of_int (MakeDay (decimal ''1970'') (decimal ''01'' - 1) (decimal ''02'')))\<rparr>"
    using k by (intro CivilDate_new_iso_valid [OF iso_match_examples(6)])
      (simp_all add: decimal_examples real_date_examples)
  then show ?thesis
    using c v by (simp add: CivilDate_new_code iso_match_examples decode_char decimal_examples
        MakeDay_examples)
qed

text \<open>
  Claim C1, amended: the numeric entry point accepts a day count only in \<open>[1296, 46655]\<close>. A
  \<^verbatim>\<open>CivilDate\<close> constructed from a number other than \<open>NaN\<close> holds that number, which lies
  in \<open>[1296, 46655]\<close>, and every other such number is rejected with \<^verbatim>\<open>Days out of range\<close>.
  \<^verbatim>\<open>decode\<close> checks no range of its own: its result is an integer in \<open>[0, 46655]\<close>, and
  every integer of that interval is the result for some code.
\<close>

theorem value_range_by_entry_point:
  "(\<forall>q. CivilDate_new h (NumberArg (Fin q)) =
      (if 1296 \<le> q \<and> q \<le> 46655 then Inr \<lparr>value = Fin q\<rparr>
       else Inl (Error ''Days out of range''))) \<and>
   CivilDate_new h (NumberArg PosInf) = Inl (Error ''Days out of range'') \<and>
   CivilDate_new h (NumberArg NegInf) = Inl (Error ''Days out of range'') \<and>
   (\<forall>s v. decode s = Inr v \<longrightarrow> (\<exists>k::nat. k \<le> 46655 \<and> v = Fin (of_nat k))) \<and>
   (\<forall>k::nat. k \<le> 46655 \<longrightarrow> decode (radix36_code k) = Inr (Fin (of_nat k)))"
proof (intro conjI allI impI)
  fix s v
  assume "decode s = Inr v"
  then have "CODE_REGEX_test s" "v = Fin (of_nat (digits_value 36 s))"
    by (auto simp: decode_char split: if_splits)
  then show "\<exists>k::nat. k \<le> 46655 \<and> v = Fin (of_nat k)"
    using digits_value_bound [of s] by blast
next
  fix k :: nat
  assume "k \<le> 46655"
  then show "decode (radix36_code k) = Inr (Fin (of_nat k))"
    by (simp add: decode_char radix36_code_regex radix36_code_value)
qed (simp_all add: CivilDate_new_number,
     simp_all add: CivilDate_new_def MIN_DAYS_def MAX_DAYS_def num_greater_def)

theorem value_range_by_entry_point_witness:
  "CivilDate_new central_host (NumberArg (Fin 20445)) = Inr \<lparr>value = Fin 20445\<rparr> \<and>
   CivilDate_new central_host (NumberArg (Fin (40891 / 2))) = Inr \<lparr>value = Fin (40891 / 2)\<rparr> \<and>
   CivilDate_new central_host (NumberArg (Fin 1000)) = Inl (Error ''Days out of range'') \<and>
   CivilDate_new central_host (NumberArg (Fin 50000)) = Inl (Error ''Days out of range'') \<and>
   decode ''FRX'' = Inr (Fin 20445) \<and>
   (\<exists>k::nat. k \<le> 46655 \<and> Fin 20445 = Fin (of_nat k)) \<and>
   radix36_code 0 = ''000'' \<and>
   decode (radix36_code 0) = Inr (Fin 0)"
proof -
  have n: "CivilDate_new central_host (NumberArg (Fin q)) =
      (if 1296 \<le> q \<and> q \<le> 46655 then Inr \<lparr>value = Fin q\<rparr>
       else Inl (Error ''Days out of range''))" for q
    using value_range_by_entry_point [of central_host] by blast
  have d: "\<exists>k::nat. k \<le> 46655 \<and> Fin 20445 = Fin (of_nat k)"
    using value_range_by_entry_point [of central_host] decode_FRX by blast
  have "(0::nat) \<le> 46655" by simp
  then have z: "decode (radix36_code 0) = Inr (Fin (of_nat 0))"
    using value_range_by_entry_point [of central_host] by blast
  have r: "radix36_code 0 = ''000''"
    by (simp add: radix36_code_def upper_digit_def, code_simp)
  show ?thesis using d z r decode_FRX by (simp add: n)
qed

text \<open>
  A value outside the range, as the other paths of the constructor store it, makes
  \<^verbatim>\<open>toString\<close> of the object fail.
\<close>

lemma toString_out_of_range:
  "CivilDate_toString \<lparr>value = Fin 0\<rparr> = Inl (Error ''Days out of range'')"
  "CivilDate_toString \<lparr>value = Fin 1\<rparr> = Inl (Error ''Days out of range'')"
  by (simp_all add: CivilDate_toString_def encode_Fin)

text \<open>
  Claim C8: for a number, the constructor succeeds exactly when the number is in
  \<open>[1296, 46655]\<close> and stores it as it is. The guard of the source compares with \<^verbatim>\<open><\<close> and
  \<^verbatim>\<open>>\<close>, which are both false for \<open>NaN\<close>: the constructor accepts \<open>NaN\<close> and stores it.
\<close>

theorem CivilDate_new_NaN:
  "CivilDate_new h (NumberArg NaN) = Inr \<lparr>value = NaN\<rparr>"
  by (simp add: CivilDate_new_def MIN_DAYS_def MAX_DAYS_def num_greater_def)

text \<open>
  Claim C6: for a string argument the constructor tries the ISO pattern first. A string
  that matches the pattern and whose year, month and day are not a real calendar date
  fails with \<^verbatim>\<open>Invalid date\<close>; a string that matches and names a real date from the year
  100 on is accepted, with the day count of that date, where the host's zone keeps the
  local midnight of that date; a string that does not match the pattern is decoded as a
  code, and fails with \<^verbatim>\<open>Invalid civil-date code\<close> when it is not a code either.
\<close>

theorem string_dispatch:
  "(ISO_REGEX_match s = Some (g1, g2, g3) \<and>
      \<not> real_date (decimal g1) (decimal g2) (decimal g3) \<longrightarrow>
      CivilDate_new h (StringArg s) = Inl (Error ''Invalid date'')) \<and>
   (ISO_REGEX_match s = Some (g1, g2, g3) \<and>
      real_date (decimal g1) (decimal g2) (decimal g3) \<and> 100 \<le> decimal g1 \<and>
      keeps_local_date (zone h)
        (MakeDay (decimal g1) (decimal g2 - 1) (decimal g3) * msPerDay) \<longrightarrow>
      CivilDate_new h (StringArg s) =
        Inr \<lparr>value = Fin (of_int (MakeDay (decimal g1) (decimal g2 - 1) (decimal g3)))\<rparr>) \<and>
   (ISO_REGEX_match s = None \<longrightarrow>
      CivilDate_new h (StringArg s) =
        (case decode s of Inl e \<Rightarrow> Inl e | Inr days \<Rightarrow> Inr \<lparr>value = days\<rparr>)) \<and>
   (ISO_REGEX_match s = None \<and> \<not> CODE_REGEX_test s \<longrightarrow>
      CivilDate_new h (StringArg s) = Inl (Error ''Invalid civil-date code''))"
proof (intro conjI impI)
  assume "ISO_REGEX_match s = Some (g1, g2, g3) \<and>
      \<not> real_date (decimal g1) (decimal g2) (decimal g3)"
  then show "CivilDate_new h (StringArg s) = Inl (Error ''Invalid date'')"
    using CivilDate_new_iso_invalid by blast
next
  assume "ISO_REGEX_match s = Some (g1, g2, g3) \<and>
      real_date (decimal g1) (decimal g2) (decimal g3) \<and> 100 \<le> decimal g1 \<and>
      keeps_local_date (zone h)
        (MakeDay (decimal g1) (decimal g2 - 1) (decimal g3) * msPerDay)"
  then show "CivilDate_new h (StringArg s) =
        Inr \<lparr>value = Fin (of_int (MakeDay (decimal g1) (decimal g2 - 1) (decimal g3)))\<rparr>"
    using CivilDate_new_iso_valid by blast
next
  assume "ISO_REGEX_match s = None"
  then show "CivilDate_new h (StringArg s) =
        (case decode s of Inl e \<Rightarrow> Inl e | Inr days \<Rightarrow> Inr \<lparr>value = days\<rparr>)"
    by (simp add: CivilDate_new_def)
next
  assume "ISO_REGEX_match s = None \<and> \<not> CODE_REGEX_test s"
  then show "CivilDate_new h (StringArg s) = Inl (Error ''Invalid civil-date code'')"
    by (simp add: CivilDate_new_code)
qed

theorem string_dispatch_witness:
  "CivilDate_new central_host (StringArg ''2025-02-30'') = Inl (Error ''Invalid date'') \<and>
   CivilDate_new central_host (StringArg ''2023-02-29'') = Inl (Error ''Invalid date'') \<and>
   CivilDate_new central_host (StringArg ''2024-02-29'') = Inr \<lparr>value = Fin 19782\<rparr> \<and>
   CivilDate_new central_host (StringArg ''2025-12-23'') = Inr \<lparr>value = Fin 20445\<rparr> \<and>
   CivilDate_new central_host (StringArg ''invalid'') = Inl (Error ''Invalid civil-date code'') \<and>
   CivilDate_new central_host (StringArg ''2025/01/01'') =
     Inl (Error ''Invalid civil-date code'')"
proof -
  note ev = iso_match_examples decimal_examples real_date_examples MakeDay_examples
  have k: "keeps_local_date (zone central_host) (n * msPerDay)"
    if "\<bar>n\<bar> \<le> 50000" for n
    unfolding central_zone using that
    by (intro keeps_local_date_fixed) (simp add: msPerDay_def)
  have c: "\<not> CODE_REGEX_test ''invalid''" "\<not> CODE_REGEX_test ''2025/01/01''"
    by (simp_all add: CODE_REGEX_test_def)
  show ?thesis
    using string_dispatch [of "''2025-02-30''" "''2025''" "''02''" "''30''" central_host]
      string_dispatch [of "''2023-02-29''" "''2023''" "''02''" "''29''" central_host]
      string_dispatch [of "''2024-02-29''" "''2024''" "''02''" "''29''" central_host]
      string_dispatch [of "''2025-12-23''" "''2025''" "''12''" "''23''" central_host]
      string_dispatch [of "''invalid''" _ _ _ central_host]
      string_dispatch [of "''2025/01/01''" _ _ _ central_host]
      k [of 19782] k [of 20445] c
    by (simp add: ev decode_char)
qed

text \<open>
  The round trip of an ISO string, where the host's zone keeps the local midnight of the
  date: the constructor accepts the string with the day count of its date, and
  \<^verbatim>\<open>toISOString\<close> of the result is the string. Every zone with a fixed offset is such a zone.
\<close>

lemma iso_round_trip_kept:
  "ISO_REGEX_match s = Some (g1, g2, g3) \<and>
   real_date (decimal g1) (decimal g2) (decimal g3) \<and>
   1296 \<le> MakeDay (decimal g1) (decimal g2 - 1) (decimal g3) \<and>
   MakeDay (decimal g1) (decimal g2 - 1) (decimal g3) \<le> 46655 \<and>
   keeps_local_date (zone h) (MakeDay (decimal g1) (decimal g2 - 1) (decimal g3) * msPerDay)
   \<longrightarrow>
   (\<exists>c. CivilDate_new h (StringArg s) = Inr c \<and>
        value c = Fin (of_int (MakeDay (decimal g1) (decimal g2 - 1) (decimal g3))) \<and>
        CivilDate_toISOString h c = Inr s)"
proof
  assume a: "ISO_REGEX_match s = Some (g1, g2, g3) \<and>
   real_date (decimal g1) (decimal g2) (decimal g3) \<and>
   1296 \<le> MakeDay (decimal g1) (decimal g2 - 1) (decimal g3) \<and>
   MakeDay (decimal g1) (decimal g2 - 1) (decimal g3) \<le> 46655 \<and>
   keeps_local_date (zone h) (MakeDay (decimal g1) (decimal g2 - 1) (decimal g3) * msPerDay)"
  then have "CivilDate_new h (StringArg s) =
           Inr \<lparr>value = Fin (of_int (MakeDay (decimal g1) (decimal g2 - 1) (decimal g3)))\<rparr> \<and>
         CivilDate_toISOString h
           \<lparr>value = Fin (of_int (MakeDay (decimal g1) (decimal g2 - 1) (decimal g3)))\<rparr> = Inr s"
    by (intro iso_round_trip_aux) simp_all
  then show "\<exists>c. CivilDate_new h (StringArg s) = Inr c \<and>
        value c = Fin (of_int (MakeDay (decimal g1) (decimal g2 - 1) (decimal g3))) \<and>
        CivilDate_toISOString h c = Inr s"
    by simp
qed

lemma iso_round_trip_central:
  "CivilDate_new central_host (StringArg ''2024-02-29'') = Inr \<lparr>value = Fin 19782\<rparr> \<and>
   CivilDate_toISOString central_host \<lparr>value = Fin 19782\<rparr> = Inr ''2024-02-29'' \<and>
   CivilDate_new central_host (StringArg ''2025-12-23'') = Inr \<lparr>value = Fin 20445\<rparr> \<and>
   CivilDate_toISOString central_host \<lparr>value = Fin 20445\<rparr> = Inr ''2025-12-23''"
proof -
  note ev = iso_match_examples decimal_examples real_date_examples MakeDay_examples
  have k: "keeps_local_date (zone central_host) (n * msPerDay)"
    if "\<bar>n\<bar> \<le> 50000" for n
    unfolding central_zone using that
    by (intro keeps_local_date_fixed) (simp add: msPerDay_def)
  have a: "\<exists>c. CivilDate_new central_host (StringArg ''2024-02-29'') = Inr c \<and>
        value c = Fin 19782 \<and> CivilDate_toISOString central_host c = Inr ''2024-02-29''"
    using iso_round_trip_kept [of "''2024-02-29''" "''2024''" "''02''" "''29''" central_host]
      k [of 19782]
    by (simp add: ev)
  have b: "\<exists>c. CivilDate_new central_host (StringArg ''2025-12-23'') = Inr c \<and>
        value c = Fin 20445 \<and> CivilDate_toISOString central_host c = Inr ''2025-12-23''"
    using iso_round_trip_kept [of "''2025-12-23''" "''2025''" "''12''" "''23''" central_host]
      k [of 20445]
    by (simp add: ev)
  have e: "c = \<lparr>value = Fin n\<rparr>" if "value c = Fin n" for c :: CivilDate and n
    using that by (cases c) simp
  from a b show ?thesis by (auto dest: e)
qed

text \<open>
  Claim C9: every calendar-valid ISO string whose day count lies in \<open>[1296, 46655]\<close>
  round-trips through a \<^verbatim>\<open>CivilDate\<close>. The code means to: \<^verbatim>\<open>toISOString\<close> builds its local
  \<^verbatim>\<open>Date\<close> from the UTC fields "to avoid timezone jumps". It fails to in a zone that skips a
  local date. Where the local date 2011-12-30 does not exist, the constructor rejects the
  string \<^verbatim>\<open>2011-12-30\<close> (day count 15338) with \<^verbatim>\<open>Invalid date\<close>, and \<^verbatim>\<open>toISOString\<close> of the
  day count 15338 is \<^verbatim>\<open>2011-12-31\<close>; in a zone of fixed offset the same string round-trips.
\<close>

theorem iso_round_trip_skipped_date:
  "ISO_REGEX_match ''2011-12-30'' = Some (''2011'', ''12'', ''30'') \<and>
   MakeDay (decimal ''2011'') (decimal ''12'' - 1) (decimal ''30'') = 15338 \<and>
   CivilDate_new central_host (StringArg ''2011-12-30'') = Inr \<lparr>value = Fin 15338\<rparr> \<and>
   CivilDate_toISOString central_host \<lparr>value = Fin 15338\<rparr> = Inr ''2011-12-30'' \<and>
   CivilDate_new dateline_host (StringArg ''2011-12-30'') = Inl (Error ''Invalid date'') \<and>
   CivilDate_new dateline_host (NumberArg (Fin 15338)) = Inr \<lparr>value = Fin 15338\<rparr> \<and>
   CivilDate_toISOString dateline_host \<lparr>value = Fin 15338\<rparr> = Inr ''2011-12-31''"
proof -
  note ev = iso_match_examples decimal_examples real_date_examples MakeDay_examples
  let ?date = "Date_of_fields (zone dateline_host) (Fin (of_int (decimal ''2011'')))
      (Fin (of_int (decimal ''12'' - 1))) (Fin (of_int (decimal ''30'')))"
  have d: "?date = Date (Some 1325239200000)"
    by (simp add: Date_of_fields_def ToInteger_def ev dateline_host_def dateline_zone_def
        UTC_def TimeClip_def msPerDay_def)
  have r: "real_date 2011 (11 + 1) 31" by (simp add: real_date_examples)
  have l: "Day (LocalTime (zone dateline_host) 1325239200000) = MakeDay 2011 11 31"
    by (simp add: ev dateline_host_def dateline_zone_def LocalTime_def Day_def msPerDay_def)
  have "getDate (zone dateline_host) ?date = Fin 31"
    unfolding d using local_fields(3) [OF r l] by simp
  then have new: "CivilDate_new dateline_host (StringArg ''2011-12-30'') = Inl (Error ''Invalid date'')"
    by (simp add: CivilDate_new_iso [OF iso_match_examples(5)] Let_def decimal_examples)
  have num: "CivilDate_new dateline_host (NumberArg (Fin 15338)) = Inr \<lparr>value = Fin 15338\<rparr>"
    by (simp add: CivilDate_new_number)
  have td: "toDate (Days (Fin 15338)) = Inr (Date (Some (15338 * 86400000)))"
    using toDate_Days_int [of 15338] by simp
  have r30: "real_date 2011 (11 + 1) 30" by (simp add: real_date_examples)
  have day: "Day (15338 * 86400000) = MakeDay 2011 11 30"
    by (simp add: ev Day_def msPerDay_def)
  note uf = utc_fields [OF r30 day]
  have d': "Date_of_fields (zone dateline_host) (Fin 2011) (Fin 11) (Fin 30) =
      Date (Some 1325239200000)"
    using d by (simp add: ev)
  have dg: "is_digit CHR ''0''" "is_digit CHR ''1''" "is_digit CHR ''2''" "is_digit CHR ''3''"
    by (simp_all add: iso_eval)
  have dec: "decimal ''2011'' = 2011" "decimal ''12'' = 12" "decimal ''31'' = 31"
    by (simp_all add: iso_eval)
  have fy: "int_toString 10 2011 = ''2011''"
    using format_four [OF dg(3) dg(1) dg(2) dg(2)] by (simp add: dec)
  have fm: "padStart0 2 (int_toString 10 12) = ''12''"
    using format_two [OF dg(2) dg(3)] by (simp add: dec)
  have fd: "padStart0 2 (int_toString 10 31) = ''31''"
    using format_two [OF dg(4) dg(2)] by (simp add: dec)
  have "toISOString (zone dateline_host) (Date (Some 1325239200000)) = ''2011-12-31''"
    using toISOString_fields [OF fields_of_MakeDay [OF r l, THEN conjunct1]
        fields_of_MakeDay [OF r l, THEN conjunct2, THEN conjunct1]
        fields_of_MakeDay [OF r l, THEN conjunct2, THEN conjunct2]]
    by (simp add: fy fm fd)
  then have iso: "CivilDate_toISOString dateline_host \<lparr>value = Fin 15338\<rparr> = Inr ''2011-12-31''"
    using uf by (simp add: CivilDate_toISOString_def td d')
  have k: "keeps_local_date (zone central_host)
      (MakeDay (decimal ''2011'') (decimal ''12'' - 1) (decimal ''30'') * msPerDay)"
    unfolding central_zone by (intro keeps_local_date_fixed) (simp add: ev msPerDay_def)
  have c: "CivilDate_new central_host (StringArg ''2011-12-30'') = Inr \<lparr>value = Fin 15338\<rparr> \<and>
      CivilDate_toISOString central_host \<lparr>value = Fin 15338\<rparr> = Inr ''2011-12-30''"
    using iso_round_trip_aux [OF iso_match_examples(5) _ _ _ k] by (simp add: ev)
  from new num iso c show ?thesis by (simp add: ev)
qed

end
